theory Spec2Isabelle
  imports Main "HOL-Library.AList" "HOL-Library.Char_ord" "HOL-Library.List_Lexorder"
begin

section \<open>Strings and paths\<close>

text \<open>
  The program is \<^verbatim>\<open>scripts/safe-op.ts\<close>: a backup store kept under
  \<^verbatim>\<open>.context/backups\<close>, with an operation log in JSON lines. Strings are
  \<^typ>\<open>string\<close>; a file's content is the string of its bytes, and text written and
  read back as UTF-8 is taken as it is.
\<close>

type_synonym path = string

text \<open>\<^verbatim>\<open>String.prototype.split\<close> with a separator of one character: n separators
  give n + 1 pieces, empty pieces included.\<close>

fun split_on :: "char \<Rightarrow> string \<Rightarrow> string list" where
  "split_on sep [] = [[]]"
| "split_on sep (c # cs) =
     (if c = sep then [] # split_on sep cs
      else (case split_on sep cs of [] \<Rightarrow> [[c]] | x # xs \<Rightarrow> (c # x) # xs))"

text \<open>\<^verbatim>\<open>Array.prototype.join\<close>.\<close>

fun join_with :: "string \<Rightarrow> string list \<Rightarrow> string" where
  "join_with sep [] = []"
| "join_with sep [x] = x"
| "join_with sep (x # y # ys) = x @ sep @ join_with sep (y # ys)"

definition starts_with :: "string \<Rightarrow> string \<Rightarrow> bool" where
  "starts_with p s = (take (length p) s = p)"

definition ends_with :: "string \<Rightarrow> string \<Rightarrow> bool" where
  "ends_with p s = (length p \<le> length s \<and> drop (length s - length p) s = p)"

subsection \<open>node:path (POSIX)\<close>

text \<open>
  \<^verbatim>\<open>normalizeString\<close> of node:path, on the segments between the slashes: empty segments
  and \<^verbatim>\<open>.\<close> are dropped, \<^verbatim>\<open>..\<close> removes the segment before it; with nothing to
  remove it is kept when \<^verbatim>\<open>allowAboveRoot\<close> holds and dropped otherwise. The
  accumulator holds the result so far, last segment first.
\<close>

fun normalizeString :: "bool \<Rightarrow> string list \<Rightarrow> string list \<Rightarrow> string list" where
  "normalizeString allowAboveRoot acc [] = rev acc"
| "normalizeString allowAboveRoot acc (seg # segs) =
     (if seg = [] \<or> seg = ''.'' then normalizeString allowAboveRoot acc segs
      else if seg = ''..'' then
        (case acc of
           [] \<Rightarrow> normalizeString allowAboveRoot (if allowAboveRoot then [''..''] else []) segs
         | a # acc' \<Rightarrow>
             if a = ''..'' then
               normalizeString allowAboveRoot (if allowAboveRoot then ''..'' # a # acc' else a # acc') segs
             else normalizeString allowAboveRoot acc' segs)
      else normalizeString allowAboveRoot (seg # acc) segs)"

definition is_absolute :: "path \<Rightarrow> bool" where
  "is_absolute p = starts_with ''/'' p"

text \<open>\<^verbatim>\<open>path.resolve(p)\<close> with one argument, in the working directory \<open>wd\<close>.\<close>

definition resolve :: "path \<Rightarrow> path \<Rightarrow> path" where
  "resolve wd p =
     (let resolvedPath =
            (if p = [] then wd @ ''/''
             else if is_absolute p then p @ ''/''
             else wd @ ''/'' @ p @ ''/'');
          resolvedAbsolute = is_absolute resolvedPath;
          body = join_with ''/'' (normalizeString (\<not> resolvedAbsolute) [] (split_on (CHR ''/'') resolvedPath))
      in if resolvedAbsolute then ''/'' @ body
         else if body \<noteq> [] then body else ''.'')"

text \<open>\<^verbatim>\<open>path.normalize\<close> and \<^verbatim>\<open>path.join\<close>.\<close>

definition normalize :: "path \<Rightarrow> path" where
  "normalize p =
     (if p = [] then ''.''
      else
        let isAbsolute = is_absolute p;
            trailingSeparator = ends_with ''/'' p;
            body = join_with ''/'' (normalizeString (\<not> isAbsolute) [] (split_on (CHR ''/'') p))
        in if body = [] then (if isAbsolute then ''/'' else if trailingSeparator then ''./'' else ''.'')
           else (if isAbsolute then ''/'' else []) @ body @ (if trailingSeparator then ''/'' else []))"

definition join :: "path list \<Rightarrow> path" where
  "join args =
     (case filter (\<lambda>a. a \<noteq> []) args of
        [] \<Rightarrow> ''.''
      | a # as \<Rightarrow> normalize (join_with ''/'' (a # as)))"

text \<open>\<^verbatim>\<open>path.basename\<close> with no suffix: trailing slashes are skipped, then the
  characters back to the slash before them are taken.\<close>

definition basename :: "path \<Rightarrow> string" where
  "basename p = rev (takeWhile (\<lambda>c. c \<noteq> CHR ''/'') (dropWhile (\<lambda>c. c = CHR ''/'') (rev p)))"

subsection \<open>The three regular expressions of rollback\<close>

text \<open>
  \<^verbatim>\<open>String.prototype.replace(regex, replacement)\<close> with a regular expression that has
  no \<^verbatim>\<open>g\<close> flag replaces the leftmost match only. A matcher tells, for the text that
  starts at a position, whether the expression matches there, how many characters the
  match takes, and what replaces them.
\<close>

fun replace_first :: "(string \<Rightarrow> (nat \<times> string) option) \<Rightarrow> string \<Rightarrow> string" where
  "replace_first m [] = (case m [] of Some (n, r) \<Rightarrow> r | None \<Rightarrow> [])"
| "replace_first m (c # cs) =
     (case m (c # cs) of
        Some (n, r) \<Rightarrow> r @ drop n (c # cs)
      | None \<Rightarrow> c # replace_first m cs)"

definition is_digit :: "char \<Rightarrow> bool" where
  "is_digit c = (c \<in> set ''0123456789'')"

text \<open>A template stands for a sequence of single-character patterns: \<^verbatim>\<open>d\<close> is
  \<^verbatim>\<open>\d\<close>, every other character is itself.\<close>

fun match_template :: "string \<Rightarrow> string \<Rightarrow> bool" where
  "match_template [] [] = True"
| "match_template (p # ps) (c # cs) =
     ((if p = CHR ''d'' then is_digit c else c = p) \<and> match_template ps cs)"
| "match_template _ _ = False"

text \<open>
  \<^verbatim>\<open>/\.context\/backups\/[^/]+\.(\d{4}-\d{2}-\d{2}T\d{2}-\d{2}-\d{2})\.bak$/\<close>, replaced by
  \<^verbatim>\<open>'$1'\<close>. The tail \<^verbatim>\<open>\.(...)\.bak$\<close> has 24 characters and ends the input, so
  \<^verbatim>\<open>[^/]+\<close> takes what stands between the directory and those 24 characters: one
  character at least, none of them a slash. Group 1 is the timestamp inside the tail.
\<close>

definition re_artifact :: "string \<Rightarrow> (nat \<times> string) option" where
  "re_artifact s =
     (let rest = drop 17 s; name = take (length rest - 24) rest; tail = drop (length rest - 24) rest
      in if starts_with ''.context/backups/'' s \<and> name \<noteq> [] \<and> CHR ''/'' \<notin> set name
            \<and> match_template ''.dddd-dd-ddTdd-dd-dd.bak'' tail
         then Some (length s, take 19 (drop 1 tail))
         else None)"

text \<open>\<^verbatim>\<open>/\.context\/backups\//\<close>, replaced by the empty string.\<close>

definition re_backup_dir :: "string \<Rightarrow> (nat \<times> string) option" where
  "re_backup_dir s = (if starts_with ''.context/backups/'' s then Some (17, []) else None)"

text \<open>\<^verbatim>\<open>/\.\d{4}-\d{2}-\d{2}T\d{2}-\d{2}-\d{2}\.bak$/\<close>, replaced by the empty string.\<close>

definition re_suffix :: "string \<Rightarrow> (nat \<times> string) option" where
  "re_suffix s = (if match_template ''.dddd-dd-ddTdd-dd-dd.bak'' s then Some (24, []) else None)"

text \<open>The destination of rollback: \<^verbatim>\<open>targetPath || resolve(backupPath).replace(...)\<close>.
  An absent and an empty \<^verbatim>\<open>targetPath\<close> are both falsy.\<close>

definition derivedTarget :: "path \<Rightarrow> path \<Rightarrow> path" where
  "derivedTarget wd backupPath =
     replace_first re_suffix (replace_first re_backup_dir (replace_first re_artifact (resolve wd backupPath)))"

definition resolvedTarget :: "path \<Rightarrow> path \<Rightarrow> path option \<Rightarrow> path" where
  "resolvedTarget wd backupPath targetPath =
     (case targetPath of
        Some t \<Rightarrow> if t \<noteq> [] then t else derivedTarget wd backupPath
      | None \<Rightarrow> derivedTarget wd backupPath)"

section \<open>The world: file system and clock\<close>

text \<open>
  A file system entry is a directory or a regular file with its content and its
  modification time. The file system is an association list from absolute, normalised
  paths to entries; the root directory always exists, and there are no symbolic links.
  \<^verbatim>\<open>existsSync\<close>, \<^verbatim>\<open>readFileSync\<close>, \<^verbatim>\<open>writeFileSync\<close> and
  \<^verbatim>\<open>mkdirSync\<close> take the entry at the path that \<^verbatim>\<open>path.resolve\<close> gives in the
  working directory. \<^verbatim>\<open>copyFileSync\<close>, which rollback calls with the paths as they
  were given to it, walks each path as the kernel does (\<open>namei\<close> below). Every reading of
  the time takes the next value of \<open>clock\<close>: its number of milliseconds since the epoch
  stamps files, and its \<open>iso\<close> is what \<^verbatim>\<open>Date.prototype.toISOString\<close> returns for
  it.
\<close>

datatype node = Dir | File (content: string) (mtime: nat)

record instant =
  millis :: nat
  iso :: string

record world =
  fs :: "(path \<times> node) list"
  cwd :: path
  scriptDir :: path
  clock :: "nat \<Rightarrow> instant"
  ticks :: nat

datatype error =
    Error string
  | SystemError string path
  | SyntaxError
  | TypeError
  | Unmodelled

type_synonym 'a io = "world \<Rightarrow> (error + 'a) \<times> world"

definition returnE :: "'a \<Rightarrow> 'a io" where
  "returnE x w = (Inr x, w)"

definition throwE :: "error \<Rightarrow> 'a io" where
  "throwE e w = (Inl e, w)"

definition bindE :: "'a io \<Rightarrow> ('a \<Rightarrow> 'b io) \<Rightarrow> 'b io" where
  "bindE m f w = (case m w of (Inl e, w') \<Rightarrow> (Inl e, w') | (Inr x, w') \<Rightarrow> f x w')"

text \<open>\<^verbatim>\<open>new Date()\<close>.\<close>

definition new_Date :: "instant io" where
  "new_Date w = (Inr (clock w (ticks w)), w\<lparr>ticks := Suc (ticks w)\<rparr>)"

definition lookup :: "world \<Rightarrow> path \<Rightarrow> node option" where
  "lookup w q = (if q = ''/'' then Some Dir else map_of (fs w) q)"

text \<open>The directory of a normalised absolute path (\<^verbatim>\<open>path.dirname\<close>).\<close>

definition dirname :: "path \<Rightarrow> path" where
  "dirname p =
     (let d = rev (dropWhile (\<lambda>c. c \<noteq> CHR ''/'') (rev p))
      in if d = [] then ''.'' else if length d = 1 then ''/'' else butlast d)"

definition existsSync :: "path \<Rightarrow> world \<Rightarrow> bool" where
  "existsSync p w = (lookup w (resolve (cwd w) p) \<noteq> None)"

text \<open>Writing an entry stamps it with the next reading of the clock.\<close>

definition put_file :: "path \<Rightarrow> string \<Rightarrow> unit io" where
  "put_file q c w =
     (Inr (), w\<lparr>fs := AList.update q (File c (millis (clock w (ticks w)))) (fs w),
                ticks := Suc (ticks w)\<rparr>)"

text \<open>Creating a file needs its directory.\<close>

definition create_file :: "path \<Rightarrow> string \<Rightarrow> unit io" where
  "create_file q c w =
     (case lookup w (dirname q) of
        Some Dir \<Rightarrow> put_file q c w
      | Some (File _ _) \<Rightarrow> (Inl (SystemError ''ENOTDIR'' q), w)
      | None \<Rightarrow> (Inl (SystemError ''ENOENT'' q), w))"

text \<open>
  The kernel resolves a path name by name. An absolute path is walked from the root; a
  relative one from the working directory, which is \<^verbatim>\<open>process.cwd()\<close>, an absolute
  path: the walk goes from the root through its names. Empty names and \<^verbatim>\<open>.\<close> stay
  where they are, \<^verbatim>\<open>..\<close> goes to the parent, and every name that is followed by a
  slash must be a directory: a missing one is \<^verbatim>\<open>ENOENT\<close>, a regular file
  \<^verbatim>\<open>ENOTDIR\<close>. The last name need not exist. The accumulator holds the names of the
  directory reached, last name first. The empty path is \<^verbatim>\<open>ENOENT\<close>.
\<close>

fun walk :: "world \<Rightarrow> path \<Rightarrow> string list \<Rightarrow> string list \<Rightarrow> error + path" where
  "walk w p acc [] = Inr (''/'' @ join_with ''/'' (rev acc))"
| "walk w p acc (seg # segs) =
     (if seg = [] \<or> seg = ''.'' then walk w p acc segs
      else if seg = ''..'' then walk w p (tl acc) segs
      else if segs = [] then Inr (''/'' @ join_with ''/'' (rev (seg # acc)))
      else (case lookup w (''/'' @ join_with ''/'' (rev (seg # acc))) of
              Some Dir \<Rightarrow> walk w p (seg # acc) segs
            | Some (File _ _) \<Rightarrow> Inl (SystemError ''ENOTDIR'' p)
            | None \<Rightarrow> Inl (SystemError ''ENOENT'' p)))"

definition namei :: "path \<Rightarrow> world \<Rightarrow> error + path" where
  "namei p w =
     (if p = [] then Inl (SystemError ''ENOENT'' p)
      else if is_absolute p then walk w p [] (split_on (CHR ''/'') p)
      else if is_absolute (cwd w) then walk w p [] (split_on (CHR ''/'') (cwd w @ ''/'' @ p))
      else Inl Unmodelled)"

text \<open>\<^verbatim>\<open>copyFileSync(src, dest)\<close> opens the source, then the destination, which it
  creates or overwrites.\<close>

definition copyFileSync :: "path \<Rightarrow> path \<Rightarrow> unit io" where
  "copyFileSync src dest w =
     (case namei src w of
        Inl e \<Rightarrow> (Inl e, w)
      | Inr s \<Rightarrow>
          (case lookup w s of
             None \<Rightarrow> (Inl (SystemError ''ENOENT'' s), w)
           | Some Dir \<Rightarrow> (Inl (SystemError ''EISDIR'' s), w)
           | Some (File c _) \<Rightarrow>
               (case namei dest w of
                  Inl e \<Rightarrow> (Inl e, w)
                | Inr d \<Rightarrow>
                    if s = d then (Inr (), w)
                    else (case lookup w d of
                            Some Dir \<Rightarrow> (Inl (SystemError ''EISDIR'' d), w)
                          | Some (File _ _) \<Rightarrow> put_file d c w
                          | None \<Rightarrow> create_file d c w))))"

definition readFileSync :: "path \<Rightarrow> string io" where
  "readFileSync p w =
     (let q = resolve (cwd w) p
      in case lookup w q of
           None \<Rightarrow> (Inl (SystemError ''ENOENT'' q), w)
         | Some Dir \<Rightarrow> (Inl (SystemError ''EISDIR'' q), w)
         | Some (File c _) \<Rightarrow> (Inr c, w))"

text \<open>\<^verbatim>\<open>writeFileSync(p, data, { flag: 'a' })\<close>: the data goes after what the file
  holds; a missing file is created.\<close>

definition appendFileSync :: "path \<Rightarrow> string \<Rightarrow> unit io" where
  "appendFileSync p data w =
     (let q = resolve (cwd w) p
      in case lookup w q of
           None \<Rightarrow> create_file q data w
         | Some Dir \<Rightarrow> (Inl (SystemError ''EISDIR'' q), w)
         | Some (File c _) \<Rightarrow> put_file q (c @ data) w)"

text \<open>\<^verbatim>\<open>mkdirSync(p, { recursive: true })\<close>: every missing directory on the way is
  created; a regular file on the way is an error.\<close>

fun mkdir_p :: "(path \<times> node) list \<Rightarrow> path \<Rightarrow> string list \<Rightarrow> error + (path \<times> node) list" where
  "mkdir_p al pre [] = Inr al"
| "mkdir_p al pre (seg # segs) =
     (let q = pre @ ''/'' @ seg
      in case map_of al q of
           None \<Rightarrow> mkdir_p (AList.update q Dir al) q segs
         | Some Dir \<Rightarrow> mkdir_p al q segs
         | Some (File _ _) \<Rightarrow> Inl (SystemError (if segs = [] then ''EEXIST'' else ''ENOTDIR'') q))"

definition mkdirSync :: "path \<Rightarrow> unit io" where
  "mkdirSync p w =
     (let q = resolve (cwd w) p
      in case mkdir_p (fs w) [] (normalizeString False [] (split_on (CHR ''/'') q)) of
           Inl e \<Rightarrow> (Inl e, w)
         | Inr al \<Rightarrow> (Inr (), w\<lparr>fs := al\<rparr>))"

section \<open>safe-op.ts\<close>

definition ROOT_DIR :: "world \<Rightarrow> path" where
  "ROOT_DIR w = join [scriptDir w, ''..'']"

definition BACKUP_DIR :: "world \<Rightarrow> path" where
  "BACKUP_DIR w = join [ROOT_DIR w, ''.context'', ''backups'']"

record BackupOptions =
  maxBackups :: "int option"
  comment :: "string option"

record BackupRecord =
  timestamp :: string
  originalPath :: string
  backupPath :: string
  operation :: string
  comment' :: "string option"

definition ensureBackupDir :: "unit io" where
  "ensureBackupDir w =
     (if \<not> existsSync (BACKUP_DIR w) w then mkdirSync (BACKUP_DIR w) w else (Inr (), w))"

text \<open>\<^verbatim>\<open>new Date().toISOString().replace(/[:.]/g, '-').slice(0, -5)\<close>.\<close>

definition getTimestamp :: "string io" where
  "getTimestamp =
     bindE new_Date (\<lambda>d.
       let dashed = map (\<lambda>c. if c = CHR '':'' \<or> c = CHR ''.'' then CHR ''-'' else c) (iso d)
       in returnE (take (length dashed - 5) dashed))"

definition getBackupPath :: "path \<Rightarrow> path io" where
  "getBackupPath originalPath' =
     bindE getTimestamp (\<lambda>timestamp' w.
       let filename = basename originalPath'
       in (Inr (join [BACKUP_DIR w, filename @ ''.'' @ timestamp' @ ''.bak'']), w))"

subsection \<open>The shell commands of cleanOldBackups\<close>

text \<open>
  \<^verbatim>\<open>ls -t "${BACKUP_DIR}/${basename}".*.bak 2>/dev/null || true\<close> and
  \<^verbatim>\<open>rm "${f}"\<close> run in a shell. Inside double quotes the shell reads every character as
  it is but the double quote, the dollar sign, the backquote and the backslash; a
  command with one of these (or a NUL) in a quoted part is outside this model, and so is
  a listing that names a directory and a removal whose operand starts with a dash.
\<close>

definition shell_literal :: "string \<Rightarrow> bool" where
  "shell_literal s = list_all (\<lambda>c. c \<notin> set [CHR 0x22, CHR ''$'', CHR 0x60, CHR 0x5C, CHR 0x00]) s"

text \<open>The pattern \<^verbatim>\<open>stem.*.bak\<close> on a file name: the star takes any characters, none
  included.\<close>

definition glob_bak :: "string \<Rightarrow> string \<Rightarrow> bool" where
  "glob_bak stem name =
     (length stem + 5 \<le> length name \<and> starts_with (stem @ ''.'') name \<and> ends_with ''.bak'' name)"

definition entries :: "world \<Rightarrow> path list" where
  "entries w = remdups (map fst (fs w))"

definition ls_matches :: "world \<Rightarrow> string \<Rightarrow> path list" where
  "ls_matches w stem =
     (if lookup w (BACKUP_DIR w) = Some Dir
      then filter (\<lambda>q. dirname q = BACKUP_DIR w \<and> glob_bak stem (basename q)) (entries w)
      else [])"

definition mtime_of :: "world \<Rightarrow> path \<Rightarrow> nat" where
  "mtime_of w q = (case lookup w q of Some (File _ m) \<Rightarrow> m | _ \<Rightarrow> 0)"

text \<open>\<^verbatim>\<open>ls -t\<close>: newest first, and by name among files of one modification time (the
  order of the bytes, as in the C locale).\<close>

definition ls_t :: "world \<Rightarrow> path list \<Rightarrow> path list" where
  "ls_t w qs = sort_key (\<lambda>q. - int (mtime_of w q)) (sort qs)"

definition exec_ls :: "string \<Rightarrow> string io" where
  "exec_ls stem w =
     (if shell_literal (BACKUP_DIR w) \<and> shell_literal stem then
        let ms = ls_matches w stem
        in if list_ex (\<lambda>q. lookup w q = Some Dir) ms then (Inl Unmodelled, w)
           else (Inr (concat (map (\<lambda>q. q @ [CHR 0x0A]) (ls_t w ms))), w)
      else (Inl Unmodelled, w))"

definition exec_rm :: "path \<Rightarrow> unit io" where
  "exec_rm f w =
     (if shell_literal f \<and> \<not> starts_with ''-'' f then
        let q = resolve (cwd w) f
        in case lookup w q of
             Some (File _ _) \<Rightarrow> (Inr (), w\<lparr>fs := AList.delete q (fs w)\<rparr>)
           | _ \<Rightarrow> (Inl (Error (''Command failed: rm '' @ f)), w)
      else (Inl Unmodelled, w))"

text \<open>\<^verbatim>\<open>Array.prototype.forEach\<close> with a callback that may throw, and
  \<^verbatim>\<open>Array.prototype.slice(start)\<close>.\<close>

fun forEach :: "('a \<Rightarrow> unit io) \<Rightarrow> 'a list \<Rightarrow> unit io" where
  "forEach f [] w = (Inr (), w)"
| "forEach f (x # xs) w =
     (case f x w of (Inl e, w') \<Rightarrow> (Inl e, w') | (Inr u, w') \<Rightarrow> forEach f xs w')"

definition slice_from :: "int \<Rightarrow> 'a list \<Rightarrow> 'a list" where
  "slice_from start xs =
     (if start < 0 then drop (nat (int (length xs) + start)) xs else drop (nat start) xs)"

definition cleanOldBackups :: "path \<Rightarrow> int \<Rightarrow> unit io" where
  "cleanOldBackups originalPath' keep =
     bindE (exec_ls (last (split_on (CHR ''/'') originalPath'))) (\<lambda>out.
       let backupFiles = filter (\<lambda>l. l \<noteq> []) (split_on (CHR 0x0A) out)
       in if int (length backupFiles) > keep
          then forEach exec_rm (slice_from keep backupFiles)
          else returnE ())"

subsection \<open>The operation log\<close>

text \<open>\<^verbatim>\<open>JSON.stringify\<close> of a record: \<^verbatim>\<open>QuoteJSONString\<close> escapes the double
  quote, the backslash and the control characters; a key whose value is undefined is left
  out.\<close>

definition hex :: "nat \<Rightarrow> char" where
  "hex n = ''0123456789abcdef'' ! n"

definition quote_char :: "char \<Rightarrow> string" where
  "quote_char c =
     (if c = CHR 0x22 then [CHR 0x5C, CHR 0x22]
      else if c = CHR 0x5C then [CHR 0x5C, CHR 0x5C]
      else if c = CHR 0x08 then [CHR 0x5C, CHR ''b'']
      else if c = CHR 0x0C then [CHR 0x5C, CHR ''f'']
      else if c = CHR 0x0A then [CHR 0x5C, CHR ''n'']
      else if c = CHR 0x0D then [CHR 0x5C, CHR ''r'']
      else if c = CHR 0x09 then [CHR 0x5C, CHR ''t'']
      else if (of_char c :: nat) < 32
        then [CHR 0x5C, CHR ''u'', CHR ''0'', CHR ''0'', hex (of_char c div 16), hex (of_char c mod 16)]
      else [c])"

definition QuoteJSONString :: "string \<Rightarrow> string" where
  "QuoteJSONString s = CHR 0x22 # concat (map quote_char s) @ [CHR 0x22]"

definition member :: "string \<Rightarrow> string \<Rightarrow> string" where
  "member k v = QuoteJSONString k @ '':'' @ QuoteJSONString v"

definition JSON_stringify :: "BackupRecord \<Rightarrow> string" where
  "JSON_stringify r =
     ''{'' @ join_with '',''
        ([member ''timestamp'' (timestamp r), member ''originalPath'' (originalPath r),
          member ''backupPath'' (backupPath r), member ''operation'' (operation r)]
         @ (case comment' r of None \<Rightarrow> [] | Some c \<Rightarrow> [member ''comment'' c]))
     @ ''}''"

subsection \<open>JSON.parse\<close>

text \<open>
  A JSON text is split into tokens, and a value is read from the tokens by recursive
  descent. A number keeps its text. Characters are code units below 256: an escape
  \<^verbatim>\<open>\u\<close> with a higher value is outside this model.
\<close>

datatype json =
    JNull
  | JBool bool
  | JNumber string
  | JString string
  | JArray "json list"
  | JObject "(string \<times> json) list"

datatype token =
    TLBrace | TRBrace | TLBracket | TRBracket | TColon | TComma
  | TString string | TNumber string | TTrue | TFalse | TNull

definition hex_val :: "char \<Rightarrow> nat option" where
  "hex_val c =
     (if is_digit c then Some (of_char c - 48)
      else if c \<in> set ''abcdef'' then Some (of_char c - 87)
      else if c \<in> set ''ABCDEF'' then Some (of_char c - 55)
      else None)"

definition unescape :: "char \<Rightarrow> char option" where
  "unescape e =
     (if e = CHR 0x22 \<or> e = CHR 0x5C \<or> e = CHR ''/'' then Some e
      else if e = CHR ''b'' then Some (CHR 0x08)
      else if e = CHR ''f'' then Some (CHR 0x0C)
      else if e = CHR ''n'' then Some (CHR 0x0A)
      else if e = CHR ''r'' then Some (CHR 0x0D)
      else if e = CHR ''t'' then Some (CHR 0x09)
      else None)"

definition cons_fst :: "'a \<Rightarrow> error + ('a list \<times> 'b) \<Rightarrow> error + ('a list \<times> 'b)" where
  "cons_fst x res = (case res of Inl e \<Rightarrow> Inl e | Inr (xs, r) \<Rightarrow> Inr (x # xs, r))"

fun lex_string :: "string \<Rightarrow> error + (string \<times> string)" where
  "lex_string [] = Inl SyntaxError"
| "lex_string (c # cs) =
     (if c = CHR 0x22 then Inr ([], cs)
      else if c = CHR 0x5C then
        (case cs of
           [] \<Rightarrow> Inl SyntaxError
         | e # cs' \<Rightarrow>
             if e = CHR ''u'' then
               (case cs' of
                  h1 # h2 # h3 # h4 # r \<Rightarrow>
                    (case (hex_val h1, hex_val h2, hex_val h3, hex_val h4) of
                       (Some a, Some b, Some c', Some d) \<Rightarrow>
                         (let n = ((a * 16 + b) * 16 + c') * 16 + d
                          in if n < 256 then cons_fst (char_of n) (lex_string r) else Inl Unmodelled)
                     | _ \<Rightarrow> Inl SyntaxError)
                | _ \<Rightarrow> Inl SyntaxError)
             else (case unescape e of
                     Some x \<Rightarrow> cons_fst x (lex_string cs')
                   | None \<Rightarrow> Inl SyntaxError))
      else if (of_char c :: nat) < 32 then Inl SyntaxError
      else cons_fst c (lex_string cs))"


text \<open>A number: \<^verbatim>\<open>-? (0 | [1-9][0-9]*) (. [0-9]+)? ([eE] [+-]? [0-9]+)?\<close>. The parts
  are scanned one after the other; each gives what it took and what is left.\<close>

definition lex_int :: "string \<Rightarrow> (string \<times> string) option" where
  "lex_int s =
     (case s of
        [] \<Rightarrow> None
      | c # cs \<Rightarrow>
          if c = CHR ''0'' then Some ([c], cs)
          else if is_digit c then Some (c # takeWhile is_digit cs, dropWhile is_digit cs)
          else None)"

definition lex_digits :: "string \<Rightarrow> (string \<times> string) option" where
  "lex_digits s = (if takeWhile is_digit s = [] then None else Some (takeWhile is_digit s, dropWhile is_digit s))"

definition lex_frac :: "string \<Rightarrow> (string \<times> string) option" where
  "lex_frac s =
     (case s of
        c # cs \<Rightarrow>
          if c = CHR ''.'' then map_option (\<lambda>(ds, r). (c # ds, r)) (lex_digits cs)
          else Some ([], s)
      | [] \<Rightarrow> Some ([], s))"

definition lex_exp :: "string \<Rightarrow> (string \<times> string) option" where
  "lex_exp s =
     (case s of
        c # cs \<Rightarrow>
          if c = CHR ''e'' \<or> c = CHR ''E'' then
            (case cs of
               g # cs' \<Rightarrow>
                 if g = CHR ''+'' \<or> g = CHR ''-''
                 then map_option (\<lambda>(ds, r). (c # g # ds, r)) (lex_digits cs')
                 else map_option (\<lambda>(ds, r). (c # ds, r)) (lex_digits cs)
             | [] \<Rightarrow> None)
          else Some ([], s)
      | [] \<Rightarrow> Some ([], s))"

definition lex_number :: "string \<Rightarrow> (string \<times> string) option" where
  "lex_number s =
     (let (sign, s1) = (case s of c # cs \<Rightarrow> if c = CHR ''-'' then ([c], cs) else ([], s) | [] \<Rightarrow> ([], s))
      in case lex_int s1 of
           None \<Rightarrow> None
         | Some (i, s2) \<Rightarrow>
             (case lex_frac s2 of
                None \<Rightarrow> None
              | Some (f, s3) \<Rightarrow>
                  (case lex_exp s3 of
                     None \<Rightarrow> None
                   | Some (e, s4) \<Rightarrow> Some (sign @ i @ f @ e, s4))))"

definition is_json_ws :: "char \<Rightarrow> bool" where
  "is_json_ws c = (c = CHR '' '' \<or> c = CHR 0x09 \<or> c = CHR 0x0A \<or> c = CHR 0x0D)"

lemma cons_fst_Inr: "cons_fst a res = Inr (x, r) \<longleftrightarrow> (\<exists>x'. res = Inr (x', r) \<and> x = a # x')"
  by (auto simp: cons_fst_def split: sum.splits)

lemma lex_string_step:
  assumes "lex_string (c # cs) = Inr (x, r)"
  shows "r = cs \<or> (\<exists>ys x'. lex_string ys = Inr (x', r) \<and> length ys \<le> length cs)"
proof (cases "c = CHR 0x22")
  case True
  with assms show ?thesis by simp
next
  case notq: False
  show ?thesis
  proof (cases "c = CHR 0x5C")
    case False
    with notq assms obtain x' where "lex_string cs = Inr (x', r)"
      by (auto simp: cons_fst_Inr split: if_splits)
    then show ?thesis by blast
  next
    case True
    with assms obtain e cs' where cs: "cs = e # cs'"
      by (cases cs) auto
    show ?thesis
    proof (cases "e = CHR ''u''")
      case False
      with True cs assms obtain x' where "lex_string cs' = Inr (x', r)"
        by (auto simp: cons_fst_Inr split: option.splits)
      with cs show ?thesis by auto
    next
      case u: True
      with True cs assms obtain h1 h2 h3 h4 r0 where cs': "cs' = h1 # h2 # h3 # h4 # r0"
        by (auto split: list.splits)
      with u True cs assms obtain x' where "lex_string r0 = Inr (x', r)"
        by (auto simp: cons_fst_Inr Let_def split: option.splits if_splits)
      with cs cs' show ?thesis by auto
    qed
  qed
qed

lemma lex_string_shorter: "lex_string s = Inr (x, r) \<Longrightarrow> length r < length s"
proof (induction s arbitrary: x r rule: length_induct)
  case (1 s)
  show ?case
  proof (cases s)
    case Nil
    with 1 show ?thesis by simp
  next
    case (Cons c cs)
    with "1.prems" have "r = cs \<or> (\<exists>ys x'. lex_string ys = Inr (x', r) \<and> length ys \<le> length cs)"
      using lex_string_step by blast
    then show ?thesis
    proof
      assume "r = cs" with Cons show ?thesis by simp
    next
      assume "\<exists>ys x'. lex_string ys = Inr (x', r) \<and> length ys \<le> length cs"
      then obtain ys x' where ys: "lex_string ys = Inr (x', r)" "length ys \<le> length cs" by blast
      with Cons have "length ys < length s" by simp
      with "1.IH" ys(1) have "length r < length ys" by blast
      with ys(2) Cons show ?thesis by simp
    qed
  qed
qed

lemma lex_digits_shorter: "lex_digits s = Some (x, r) \<Longrightarrow> length r \<le> length s"
  by (auto simp: lex_digits_def length_dropWhile_le split: if_splits)

lemma lex_frac_shorter: "lex_frac s = Some (x, r) \<Longrightarrow> length r \<le> length s"
  by (auto simp: lex_frac_def split: list.splits if_splits dest!: lex_digits_shorter)

lemma lex_exp_shorter: "lex_exp s = Some (x, r) \<Longrightarrow> length r \<le> length s"
  by (auto simp: lex_exp_def split: list.splits if_splits dest!: lex_digits_shorter)

lemma lex_int_shorter: "lex_int s = Some (x, r) \<Longrightarrow> length r < length s"
  by (auto simp: lex_int_def less_Suc_eq_le length_dropWhile_le split: list.splits if_splits)

lemma lex_number_shorter: "lex_number s = Some (x, r) \<Longrightarrow> length r < length s"
  by (auto simp: lex_number_def split: list.splits if_splits option.splits prod.splits
      dest!: lex_int_shorter lex_frac_shorter lex_exp_shorter)

function tokenize :: "string \<Rightarrow> error + token list" where
  "tokenize [] = Inr []"
| "tokenize (c # cs) =
     (if is_json_ws c then tokenize cs
      else if c = CHR ''{'' then map_sum id ((#) TLBrace) (tokenize cs)
      else if c = CHR ''}'' then map_sum id ((#) TRBrace) (tokenize cs)
      else if c = CHR ''['' then map_sum id ((#) TLBracket) (tokenize cs)
      else if c = CHR '']'' then map_sum id ((#) TRBracket) (tokenize cs)
      else if c = CHR '':'' then map_sum id ((#) TColon) (tokenize cs)
      else if c = CHR '','' then map_sum id ((#) TComma) (tokenize cs)
      else if c = CHR 0x22 then
        (case lex_string cs of
           Inl e \<Rightarrow> Inl e
         | Inr (s, r) \<Rightarrow> map_sum id ((#) (TString s)) (tokenize r))
      else if c = CHR ''-'' \<or> is_digit c then
        (case lex_number (c # cs) of
           None \<Rightarrow> Inl SyntaxError
         | Some (l, r) \<Rightarrow> map_sum id ((#) (TNumber l)) (tokenize r))
      else if starts_with ''true'' (c # cs) then map_sum id ((#) TTrue) (tokenize (drop 3 cs))
      else if starts_with ''false'' (c # cs) then map_sum id ((#) TFalse) (tokenize (drop 4 cs))
      else if starts_with ''null'' (c # cs) then map_sum id ((#) TNull) (tokenize (drop 3 cs))
      else Inl SyntaxError)"
  by pat_completeness auto
termination
proof (relation "measure length", goal_cases)
  case 1
  show ?case by simp
next
  case (9 c cs x2 x y)
  then show ?case using lex_string_shorter[of cs x y] by simp
next
  case (10 c cs x2 x y)
  then show ?case using lex_number_shorter[of "c # cs" x y] by simp
qed simp_all

function parse_value :: "token list \<Rightarrow> error + (json \<times> token list)"
  and parse_elements :: "token list \<Rightarrow> error + (json list \<times> token list)"
  and parse_members :: "token list \<Rightarrow> error + ((string \<times> json) list \<times> token list)"
where
  "parse_value ts =
     (case ts of
        [] \<Rightarrow> Inl SyntaxError
      | t # ts' \<Rightarrow>
          (case t of
             TNull \<Rightarrow> Inr (JNull, ts')
           | TTrue \<Rightarrow> Inr (JBool True, ts')
           | TFalse \<Rightarrow> Inr (JBool False, ts')
           | TNumber l \<Rightarrow> Inr (JNumber l, ts')
           | TString s \<Rightarrow> Inr (JString s, ts')
           | TLBracket \<Rightarrow>
               (case ts' of
                  TRBracket # r \<Rightarrow> Inr (JArray [], r)
                | _ \<Rightarrow> map_sum id (\<lambda>(vs, r). (JArray vs, r)) (parse_elements ts'))
           | TLBrace \<Rightarrow>
               (case ts' of
                  TRBrace # r \<Rightarrow> Inr (JObject [], r)
                | _ \<Rightarrow> map_sum id (\<lambda>(kvs, r). (JObject kvs, r)) (parse_members ts'))
           | _ \<Rightarrow> Inl SyntaxError))"
| "parse_elements ts =
     (case parse_value ts of
        Inl e \<Rightarrow> Inl e
      | Inr (v, r) \<Rightarrow>
          if length r < length ts then
            (case r of
               TComma # r' \<Rightarrow> cons_fst v (parse_elements r')
             | TRBracket # r' \<Rightarrow> Inr ([v], r')
             | _ \<Rightarrow> Inl SyntaxError)
          else Inl SyntaxError)"
| "parse_members ts =
     (case ts of
        TString k # TColon # ts' \<Rightarrow>
          (case parse_value ts' of
             Inl e \<Rightarrow> Inl e
           | Inr (v, r) \<Rightarrow>
               if length r < length ts' then
                 (case r of
                    TComma # r' \<Rightarrow> cons_fst (k, v) (parse_members r')
                  | TRBrace # r' \<Rightarrow> Inr ([(k, v)], r')
                  | _ \<Rightarrow> Inl SyntaxError)
               else Inl SyntaxError)
      | _ \<Rightarrow> Inl SyntaxError)"
  by pat_completeness auto
termination
  by (relation "measure (\<lambda>x. case x of Inl ts \<Rightarrow> 2 * length ts
                                     | Inr (Inl ts) \<Rightarrow> 2 * length ts + 1
                                     | Inr (Inr ts) \<Rightarrow> 2 * length ts + 1)") auto

definition JSON_parse :: "string \<Rightarrow> error + json" where
  "JSON_parse s =
     (case tokenize s of
        Inl e \<Rightarrow> Inl e
      | Inr ts \<Rightarrow>
          (case parse_value ts of
             Inl e \<Rightarrow> Inl e
           | Inr (v, r) \<Rightarrow> if r = [] then Inr v else Inl SyntaxError))"

definition logPath :: "world \<Rightarrow> path" where
  "logPath w = join [BACKUP_DIR w, ''operations.jsonl'']"

definition recordOperation :: "BackupRecord \<Rightarrow> unit io" where
  "recordOperation r =
     bindE new_Date (\<lambda>d.
       let line = JSON_stringify (r\<lparr>timestamp := iso d\<rparr>) @ [CHR 0x0A]
       in bindE (\<lambda>w. if existsSync (logPath w) w then readFileSync (logPath w) w else (Inr [], w))
            (\<lambda>existing w. appendFileSync (logPath w) (existing @ line) w))"

subsection \<open>backupFile and rollback\<close>

definition backupFile :: "path \<Rightarrow> BackupOptions \<Rightarrow> path io" where
  "backupFile filePath options w =
     (let resolvedPath = resolve (cwd w) filePath
      in bindE (getBackupPath resolvedPath) (\<lambda>bpath w.
           if \<not> existsSync resolvedPath w
           then (Inl (Error (''File not found: '' @ resolvedPath)), w)
           else
             bindE ensureBackupDir (\<lambda>u.
             bindE (copyFileSync resolvedPath bpath) (\<lambda>u.
             bindE new_Date (\<lambda>d.
             bindE (recordOperation
                      \<lparr>timestamp = iso d, originalPath = resolvedPath, backupPath = bpath,
                       operation = ''backup'', comment' = comment options\<rparr>) (\<lambda>u.
             bindE (case maxBackups options of
                      Some k \<Rightarrow> if k \<noteq> 0 then cleanOldBackups resolvedPath k else returnE ()
                    | None \<Rightarrow> returnE ()) (\<lambda>u.
             returnE bpath))))) w) w)"

definition rollback :: "path \<Rightarrow> path option \<Rightarrow> path io" where
  "rollback bpath targetPath w =
     (if \<not> existsSync bpath w then (Inl (Error (''Backup not found: '' @ bpath)), w)
      else
        let target = resolvedTarget (cwd w) bpath targetPath
        in bindE (copyFileSync bpath target) (\<lambda>u.
           bindE new_Date (\<lambda>d.
           bindE (recordOperation
                    \<lparr>timestamp = iso d, originalPath = target, backupPath = bpath,
                     operation = ''rollback'', comment' = None\<rparr>) (\<lambda>u.
           returnE target))) w)"

subsection \<open>listBackups\<close>

fun map_E :: "('a \<Rightarrow> error + 'b) \<Rightarrow> 'a list \<Rightarrow> error + 'b list" where
  "map_E f [] = Inr []"
| "map_E f (x # xs) =
     (case f x of
        Inl e \<Rightarrow> Inl e
      | Inr y \<Rightarrow> (case map_E f xs of Inl e \<Rightarrow> Inl e | Inr ys \<Rightarrow> Inr (y # ys)))"

fun filter_E :: "('a \<Rightarrow> error + bool) \<Rightarrow> 'a list \<Rightarrow> error + 'a list" where
  "filter_E p [] = Inr []"
| "filter_E p (x # xs) =
     (case p x of
        Inl e \<Rightarrow> Inl e
      | Inr b \<Rightarrow> (case filter_E p xs of Inl e \<Rightarrow> Inl e | Inr ys \<Rightarrow> Inr (if b then x # ys else ys)))"

text \<open>
  \<^verbatim>\<open>r.timestamp\<close>, \<^verbatim>\<open>r.originalPath\<close>, \<^verbatim>\<open>r.backupPath\<close>, \<^verbatim>\<open>r.operation\<close> and
  \<^verbatim>\<open>r.comment\<close> on a parsed value: a TypeError on null, the own property of an
  object (the last one of that key in the text), and undefined (\<open>None\<close>) on every other
  value, since no prototype has a property of these names.
\<close>

definition get_property :: "json \<Rightarrow> string \<Rightarrow> error + json option" where
  "get_property r k =
     (case r of
        JNull \<Rightarrow> Inl TypeError
      | JObject kvs \<Rightarrow> Inr (map_of (rev kvs) k)
      | _ \<Rightarrow> Inr None)"

text \<open>\<^verbatim>\<open>r.originalPath === resolved || r.backupPath === resolved\<close>.\<close>

definition mentions :: "path \<Rightarrow> json \<Rightarrow> error + bool" where
  "mentions resolved r =
     (case get_property r ''originalPath'' of
        Inl e \<Rightarrow> Inl e
      | Inr p \<Rightarrow>
          if p = Some (JString resolved) then Inr True
          else (case get_property r ''backupPath'' of
                  Inl e \<Rightarrow> Inl e
                | Inr b \<Rightarrow> Inr (b = Some (JString resolved))))"

definition listBackups :: "path option \<Rightarrow> json list io" where
  "listBackups filePath w =
     (if \<not> existsSync (logPath w) w then (Inr [], w)
      else
        bindE (readFileSync (logPath w)) (\<lambda>text' w.
          case map_E JSON_parse (filter (\<lambda>l. l \<noteq> []) (split_on (CHR 0x0A) text')) of
            Inl e \<Rightarrow> (Inl e, w)
          | Inr records \<Rightarrow>
              (case filePath of
                 None \<Rightarrow> (Inr records, w)
               | Some f \<Rightarrow>
                   if f = [] then (Inr records, w)
                   else (filter_E (mentions (resolve (cwd w) f)) records, w))) w)"

subsection \<open>The command line\<close>

text \<open>
  What the program prints on the standard output, one entry for each call of
  \<^verbatim>\<open>console.log\<close>. A line built from strings is the line itself; a line built from
  other values keeps the values.
\<close>

datatype out =
    Usage
  | Line string
  | Record_line "json option" "json option" "json option"
  | Comment_line json
  | Cleaned string int

record result =
  exit_code :: nat
  stdout :: "out list"
  failure :: "error option"

text \<open>
  The conversion of a parsed value to a string throws a TypeError for an object with an own
  property \<^verbatim>\<open>toString\<close> (it hides the method, and \<^verbatim>\<open>valueOf\<close> gives no
  primitive), and for an array with such an element: \<^verbatim>\<open>Array.prototype.join\<close>
  converts every element but null.
\<close>

fun ToString_throws :: "json \<Rightarrow> bool" where
  "ToString_throws (JObject kvs) = list_ex (\<lambda>kv. fst kv = ''toString'') kvs"
| "ToString_throws (JArray vs) = list_ex ToString_throws vs"
| "ToString_throws v = False"

definition template_throws :: "json option \<Rightarrow> bool" where
  "template_throws v = (case v of None \<Rightarrow> False | Some x \<Rightarrow> ToString_throws x)"

text \<open>Truthiness. A number is zero when it has no digit but 0 before its exponent (a
  number too small for a double, which is read as zero, is not told apart).\<close>

definition truthy :: "json option \<Rightarrow> bool" where
  "truthy v =
     (case v of
        None \<Rightarrow> False
      | Some JNull \<Rightarrow> False
      | Some (JBool b) \<Rightarrow> b
      | Some (JString s) \<Rightarrow> s \<noteq> []
      | Some (JNumber l) \<Rightarrow>
          list_ex (\<lambda>c. c \<in> set ''123456789'') (takeWhile (\<lambda>c. c \<noteq> CHR ''e'' \<and> c \<noteq> CHR ''E'') l)
      | Some (JArray vs) \<Rightarrow> True
      | Some (JObject kvs) \<Rightarrow> True)"

text \<open>The body of \<^verbatim>\<open>records.forEach\<close> in the list command, for one record.\<close>

definition log_record :: "json \<Rightarrow> out list \<times> error option" where
  "log_record r =
     (case (get_property r ''timestamp'', get_property r ''operation'',
            get_property r ''backupPath'', get_property r ''comment'') of
        (Inr t, Inr p, Inr b, Inr c) \<Rightarrow>
          if template_throws t \<or> template_throws p \<or> template_throws b then ([], Some TypeError)
          else
            (case c of
               None \<Rightarrow> ([Record_line t p b], None)
             | Some v \<Rightarrow>
                 if \<not> truthy c then ([Record_line t p b], None)
                 else if ToString_throws v then ([Record_line t p b], Some TypeError)
                 else ([Record_line t p b, Comment_line v], None))
      | _ \<Rightarrow> ([], Some TypeError))"

fun log_records :: "json list \<Rightarrow> out list \<times> error option" where
  "log_records [] = ([], None)"
| "log_records (r # rs) =
     (case log_record r of
        (ls, Some e) \<Rightarrow> (ls, Some e)
      | (ls, None) \<Rightarrow> (case log_records rs of (ls', e) \<Rightarrow> (ls @ ls', e)))"

text \<open>\<^verbatim>\<open>args[i]\<close>, which is undefined (\<open>None\<close>) past the end, and
  \<^verbatim>\<open>args.indexOf(x)\<close>.\<close>

definition arg :: "string list \<Rightarrow> nat \<Rightarrow> string option" where
  "arg args i = (if i < length args then Some (args ! i) else None)"

fun indexOf :: "string list \<Rightarrow> string \<Rightarrow> nat option" where
  "indexOf [] x = None"
| "indexOf (a # as) x = (if a = x then Some 0 else map_option Suc (indexOf as x))"

text \<open>
  \<^verbatim>\<open>parseInt(s, 10)\<close>: leading white space is skipped, a sign is read, and the digits
  that follow give the number; with no digit the result is NaN (\<open>None\<close>), and so it is
  for an undefined argument. The model has integers where JavaScript has doubles.
\<close>

definition is_js_space :: "char \<Rightarrow> bool" where
  "is_js_space c = (c \<in> set [CHR 0x09, CHR 0x0A, CHR 0x0B, CHR 0x0C, CHR 0x0D, CHR '' '', CHR 0xA0])"

definition decimal :: "string \<Rightarrow> int" where
  "decimal ds = foldl (\<lambda>n c. n * 10 + (int (of_char c) - 48)) 0 ds"

definition parseInt :: "string option \<Rightarrow> int option" where
  "parseInt a =
     (case a of
        None \<Rightarrow> None
      | Some s \<Rightarrow>
          let t = dropWhile is_js_space s;
              negative = starts_with ''-'' t;
              u = (if starts_with ''-'' t \<or> starts_with ''+'' t then drop 1 t else t);
              ds = takeWhile is_digit u
          in if ds = [] then None else Some (if negative then - decimal ds else decimal ds))"

text \<open>\<^verbatim>\<open>parseInt(x, 10) || d\<close>.\<close>

definition or_default :: "int option \<Rightarrow> int \<Rightarrow> int" where
  "or_default n d = (case n of None \<Rightarrow> d | Some k \<Rightarrow> if k = 0 then d else k)"

definition run_command :: "string \<Rightarrow> string list \<Rightarrow> world \<Rightarrow> (out list \<times> error option) \<times> world" where
  "run_command command args w =
     (if command = ''backup'' then
        (case arg args 1 of
           None \<Rightarrow> (([], Some (Error ''File path required'')), w)
         | Some file \<Rightarrow>
             if file = [] then (([], Some (Error ''File path required'')), w)
             else
               let maxBackups' =
                     (case indexOf args ''--max-backups'' of
                        Some i \<Rightarrow> or_default (parseInt (arg args (i + 1))) 10
                      | None \<Rightarrow> 10);
                   comment'' =
                     (case indexOf args ''--comment'' of
                        Some i \<Rightarrow> arg args (i + 1)
                      | None \<Rightarrow> None)
               in case backupFile file \<lparr>maxBackups = Some maxBackups', comment = comment''\<rparr> w of
                    (Inl e, w') \<Rightarrow> (([], Some e), w')
                  | (Inr bpath, w') \<Rightarrow> (([Line (''Backup created: '' @ bpath)], None), w'))
      else if command = ''restore'' then
        (case arg args 1 of
           None \<Rightarrow> (([], Some (Error ''Backup path required'')), w)
         | Some backup \<Rightarrow>
             if backup = [] then (([], Some (Error ''Backup path required'')), w)
             else
               (case rollback backup (arg args 2) w of
                  (Inl e, w') \<Rightarrow> (([], Some e), w')
                | (Inr restored, w') \<Rightarrow> (([Line (''Restored: '' @ restored)], None), w')))
      else if command = ''list'' then
        (case listBackups (arg args 1) w of
           (Inl e, w') \<Rightarrow> (([], Some e), w')
         | (Inr records, w') \<Rightarrow>
             if records = [] then (([Line ''No backups found.''], None), w')
             else (log_records records, w'))
      else if command = ''clean'' then
        (let keep = or_default (parseInt (arg args 2)) 5
         in case arg args 1 of
              None \<Rightarrow> (([], Some (Error ''File path required'')), w)
            | Some file \<Rightarrow>
                if file = [] then (([], Some (Error ''File path required'')), w)
                else
                  (case cleanOldBackups file keep w of
                     (Inl e, w') \<Rightarrow> (([], Some e), w')
                   | (Inr u, w') \<Rightarrow> (([Cleaned file keep], None), w')))
      else (([], Some (Error (''Unknown command: '' @ command))), w))"

text \<open>\<^verbatim>\<open>main\<close> with \<^verbatim>\<open>process.argv.slice(2)\<close>: the usage and exit code 0 without a
  command; otherwise the command runs, and an error it throws is printed after
  \<^verbatim>\<open>Error: \<close> on the standard error, with exit code 1.\<close>

definition main :: "string list \<Rightarrow> world \<Rightarrow> result \<times> world" where
  "main args w =
     (case arg args 0 of
        None \<Rightarrow> (\<lparr>exit_code = 0, stdout = [Usage], failure = None\<rparr>, w)
      | Some command \<Rightarrow>
          if command = [] \<or> command = ''-h'' \<or> command = ''--help''
          then (\<lparr>exit_code = 0, stdout = [Usage], failure = None\<rparr>, w)
          else
            (case run_command command args w of
               ((ls, None), w') \<Rightarrow> (\<lparr>exit_code = 0, stdout = ls, failure = None\<rparr>, w')
             | ((ls, Some e), w') \<Rightarrow> (\<lparr>exit_code = 1, stdout = ls, failure = Some e\<rparr>, w')))"

section \<open>Notions for the statements\<close>

text \<open>A normalised absolute path is a slash followed by its segments, joined by slashes;
  no segment is empty, \<^verbatim>\<open>.\<close> or \<^verbatim>\<open>..\<close>, and none holds a slash.\<close>

definition seg_ok :: "string \<Rightarrow> bool" where
  "seg_ok s = (s \<noteq> [] \<and> s \<noteq> ''.'' \<and> s \<noteq> ''..'' \<and> CHR ''/'' \<notin> set s)"

definition abs_path :: "string list \<Rightarrow> path" where
  "abs_path segs = ''/'' @ join_with ''/'' segs"

text \<open>A small world for the examples: a repository at \<^verbatim>\<open>/r\<close> with the script in
  \<^verbatim>\<open>/r/scripts\<close>, and a clock that stands at 17:30 on 30 December 2025.\<close>

definition example_world :: world where
  "example_world =
     \<lparr>fs = [(''/r'', Dir), (''/r/src'', Dir), (''/r/notes.txt'', File ''draft'' 5),
            (''/r/src/main.ts'', File ''let x = 1'' 7)],
      cwd = ''/r'', scriptDir = ''/r/scripts'',
      clock = (\<lambda>n. \<lparr>millis = 1000 + n, iso = ''2025-12-30T17:30:00.123Z''\<rparr>), ticks = 0\<rparr>"

text \<open>The world with some files removed, and what makes \<^verbatim>\<open>rm\<close> of a path succeed in
  this model.\<close>

definition remove_all :: "path list \<Rightarrow> world \<Rightarrow> world" where
  "remove_all qs w = w\<lparr>fs := filter (\<lambda>kv. fst kv \<notin> set qs) (fs w)\<rparr>"

definition removable :: "world \<Rightarrow> path \<Rightarrow> bool" where
  "removable w q =
     (shell_literal q \<and> \<not> starts_with ''-'' q \<and> resolve (cwd w) q = q
      \<and> (case lookup w q of Some (File c m) \<Rightarrow> True | _ \<Rightarrow> False))"

text \<open>
  The listing and the removals of cleanOldBackups are inside the model when the shell reads
  the quoted names as they are, the names that match hold no line feed, and no match is a
  directory.
\<close>

definition clean_modelled :: "world \<Rightarrow> string \<Rightarrow> bool" where
  "clean_modelled w stem =
     (is_absolute (scriptDir w) \<and> shell_literal (BACKUP_DIR w) \<and> shell_literal stem
      \<and> list_all (\<lambda>q. shell_literal q \<and> CHR 0x0A \<notin> set q \<and> lookup w q \<noteq> Some Dir)
           (ls_matches w stem))"

text \<open>A backup directory with six artifacts of \<^verbatim>\<open>notes.txt\<close>, one of
  \<^verbatim>\<open>main.ts\<close>, one of \<^verbatim>\<open>main.tsx\<close>, and the log.\<close>

definition pruning_world :: world where
  "pruning_world =
     \<lparr>fs = [(''/r'', Dir), (''/r/.context'', Dir), (''/r/.context/backups'', Dir),
            (''/r/notes.txt'', File ''final'' 70),
            (''/r/.context/backups/notes.txt.2025-12-30T17-30-00.bak'', File ''one'' 10),
            (''/r/.context/backups/notes.txt.2025-12-30T17-31-00.bak'', File ''two'' 20),
            (''/r/.context/backups/notes.txt.2025-12-30T17-32-00.bak'', File ''three'' 30),
            (''/r/.context/backups/notes.txt.2025-12-30T17-33-00.bak'', File ''four'' 40),
            (''/r/.context/backups/notes.txt.2025-12-30T17-34-00.bak'', File ''five'' 50),
            (''/r/.context/backups/notes.txt.2025-12-30T17-35-00.bak'', File ''six'' 60),
            (''/r/.context/backups/main.ts.2025-12-30T17-30-00.bak'', File ''ts'' 11),
            (''/r/.context/backups/main.tsx.2025-12-30T17-30-00.bak'', File ''tsx'' 12),
            (''/r/.context/backups/operations.jsonl'', File ''{}'' 61)],
      cwd = ''/r'', scriptDir = ''/r/scripts'',
      clock = (\<lambda>n. \<lparr>millis = 1000 + n, iso = ''2025-12-30T17:40:00.000Z''\<rparr>), ticks = 0\<rparr>"

text \<open>The record that \<^verbatim>\<open>JSON.parse\<close> gives back for a line of the log.\<close>

definition record_json :: "BackupRecord \<Rightarrow> json" where
  "record_json r =
     JObject ([(''timestamp'', JString (timestamp r)), (''originalPath'', JString (originalPath r)),
               (''backupPath'', JString (backupPath r)), (''operation'', JString (operation r))]
              @ (case comment' r of None \<Rightarrow> [] | Some c \<Rightarrow> [(''comment'', JString c)]))"

text \<open>The world after a file has been written, and worlds that differ in their files and in
  the time only.\<close>

definition written :: "path \<Rightarrow> string \<Rightarrow> world \<Rightarrow> world" where
  "written q c w =
     w\<lparr>fs := AList.update q (File c (millis (clock w (ticks w)))) (fs w), ticks := Suc (ticks w)\<rparr>"

definition same_env :: "world \<Rightarrow> world \<Rightarrow> bool" where
  "same_env w w' = (cwd w' = cwd w \<and> scriptDir w' = scriptDir w \<and> clock w' = clock w)"

text \<open>The log as the file system calls find it, and the line that recordOperation writes for
  a record at a time.\<close>

definition LOG :: "world \<Rightarrow> path" where
  "LOG w = resolve (cwd w) (logPath w)"

definition log_line :: "BackupRecord \<Rightarrow> string \<Rightarrow> string" where
  "log_line r stamp = JSON_stringify (r\<lparr>timestamp := stamp\<rparr>) @ [CHR 0x0A]"

text \<open>The timestamp in the name of an artifact, and the shape of
  \<^verbatim>\<open>toISOString\<close> for a year of four digits.\<close>

definition stamp :: "string \<Rightarrow> string" where
  "stamp i = take (length i - 5) (map (\<lambda>c. if c = CHR '':'' \<or> c = CHR ''.'' then CHR ''-'' else c) i)"

definition iso_shaped :: "string \<Rightarrow> bool" where
  "iso_shaped i = match_template ''dddd-dd-ddTdd:dd:dd.dddZ'' i"

text \<open>The content of a regular file.\<close>

definition read_file :: "world \<Rightarrow> path \<Rightarrow> string option" where
  "read_file w q = (case lookup w q of Some (File c m) \<Rightarrow> Some c | _ \<Rightarrow> None)"

text \<open>The lines of the log, as \<^verbatim>\<open>listBackups\<close> splits them.\<close>

definition log_lines :: "world \<Rightarrow> string list" where
  "log_lines w =
     (case read_file w (LOG w) of
        Some c \<Rightarrow> filter (\<lambda>l. l \<noteq> []) (split_on (CHR 0x0A) c)
      | None \<Rightarrow> [])"

text \<open>The example world after \<^verbatim>\<open>backup notes.txt\<close>, after
  \<^verbatim>\<open>backup src/main.ts\<close> on top of it, and after the first backup when
  \<^verbatim>\<open>notes.txt\<close> has then been edited.\<close>

definition notes_record :: BackupRecord where
  "notes_record =
     \<lparr>timestamp = ''2025-12-30T17:30:00.123Z'', originalPath = ''/r/notes.txt'',
      backupPath = ''/r/.context/backups/notes.txt.2025-12-30T17-30-00.bak'',
      operation = ''backup'', comment' = None\<rparr>"

definition main_record :: BackupRecord where
  "main_record =
     \<lparr>timestamp = ''2025-12-30T17:30:00.123Z'', originalPath = ''/r/src/main.ts'',
      backupPath = ''/r/.context/backups/main.ts.2025-12-30T17-30-00.bak'',
      operation = ''backup'', comment' = None\<rparr>"

definition rollback_record :: BackupRecord where
  "rollback_record =
     \<lparr>timestamp = ''2025-12-30T17:30:00.123Z'', originalPath = ''/r/2025-12-30T17-30-00'',
      backupPath = ''/r/.context/backups/notes.txt.2025-12-30T17-30-00.bak'',
      operation = ''rollback'', comment' = None\<rparr>"

definition backed_up_world :: world where
  "backed_up_world =
     example_world
       \<lparr>fs := [(''/r'', Dir), (''/r/src'', Dir), (''/r/notes.txt'', File ''draft'' 5),
              (''/r/src/main.ts'', File ''let x = 1'' 7), (''/r/.context'', Dir),
              (''/r/.context/backups'', Dir),
              (''/r/.context/backups/notes.txt.2025-12-30T17-30-00.bak'', File ''draft'' 1001),
              (''/r/.context/backups/operations.jsonl'',
               File (JSON_stringify notes_record @ [CHR 0x0A]) 1004)],
        ticks := 5\<rparr>"

definition twice_backed_up_world :: world where
  "twice_backed_up_world =
     example_world
       \<lparr>fs := [(''/r'', Dir), (''/r/src'', Dir), (''/r/notes.txt'', File ''draft'' 5),
              (''/r/src/main.ts'', File ''let x = 1'' 7), (''/r/.context'', Dir),
              (''/r/.context/backups'', Dir),
              (''/r/.context/backups/notes.txt.2025-12-30T17-30-00.bak'', File ''draft'' 1001),
              (''/r/.context/backups/operations.jsonl'',
               File (JSON_stringify notes_record @ [CHR 0x0A] @ JSON_stringify notes_record @ [CHR 0x0A]
                     @ JSON_stringify main_record @ [CHR 0x0A]) 1009),
              (''/r/.context/backups/main.ts.2025-12-30T17-30-00.bak'', File ''let x = 1'' 1006)],
        ticks := 10\<rparr>"

definition edited_world :: world where
  "edited_world =
     backed_up_world
       \<lparr>fs := AList.update ''/r/notes.txt'' (File ''final'' 2000) (fs backed_up_world)\<rparr>"

text \<open>
  A log that holds the lines of the given records, in this order; the records that
  \<^verbatim>\<open>list\<close> keeps for its argument; and what it prints for a record.
\<close>

definition written_log :: "BackupRecord list \<Rightarrow> string" where
  "written_log rs = concat (map (\<lambda>r. JSON_stringify r @ [CHR 0x0A]) rs)"

definition selected :: "string option \<Rightarrow> path \<Rightarrow> BackupRecord list \<Rightarrow> BackupRecord list" where
  "selected a wd rs =
     (case a of
        None \<Rightarrow> rs
      | Some f \<Rightarrow>
          if f = [] then rs
          else filter (\<lambda>r. originalPath r = resolve wd f \<or> backupPath r = resolve wd f) rs)"

definition record_lines :: "BackupRecord \<Rightarrow> out list" where
  "record_lines r =
     Record_line (Some (JString (timestamp r))) (Some (JString (operation r)))
       (Some (JString (backupPath r)))
     # (case comment' r of
          None \<Rightarrow> []
        | Some c \<Rightarrow> if c = [] then [] else [Comment_line (JString c)])"

text \<open>
  A log with a line that is not JSON.
\<close>

definition garbled_world :: world where
  "garbled_world =
     example_world
       \<lparr>fs := [(''/r'', Dir), (''/r/.context'', Dir), (''/r/.context/backups'', Dir),
              (''/r/.context/backups/operations.jsonl'', File (''not a record'' @ [CHR 0x0A]) 3)]\<rparr>"

section \<open>Paths\<close>

lemma split_on_not_Nil [simp]: "split_on c s \<noteq> []"
  by (induction s) (auto split: list.splits)

lemma split_on_no_sep: "c \<notin> set s \<Longrightarrow> split_on c s = [s]"
  by (induction s) auto

lemma split_on_append: "split_on c (a @ c # b) = split_on c a @ split_on c b"
proof (induction a)
  case Nil
  show ?case by simp
next
  case (Cons x a)
  show ?case
  proof (cases "x = c")
    case True
    with Cons show ?thesis by simp
  next
    case False
    obtain y ys where "split_on c a = y # ys" by (cases "split_on c a") auto
    with False Cons show ?thesis by simp
  qed
qed

lemma join_with_snoc: "segs \<noteq> [] \<Longrightarrow> join_with sep (segs @ [x]) = join_with sep segs @ sep @ x"
  by (induction sep segs rule: join_with.induct) auto

lemma split_on_join:
  "segs \<noteq> [] \<Longrightarrow> list_all (\<lambda>s. c \<notin> set s) segs \<Longrightarrow> split_on c (join_with [c] segs) = segs"
proof (induction "[c]" segs rule: join_with.induct)
  case 1
  then show ?case by simp
next
  case (2 x)
  then show ?case by (simp add: split_on_no_sep)
next
  case (3 x y ys)
  then show ?case
    using split_on_append[of c x "join_with [c] (y # ys)"] by (simp add: split_on_no_sep)
qed

lemma normalizeString_ok:
  "list_all seg_ok segs \<Longrightarrow> normalizeString a acc segs = rev acc @ segs"
  by (induction segs arbitrary: acc) (auto simp: seg_ok_def)

lemma normalizeString_append:
  "normalizeString a acc (xs @ ys) = normalizeString a (rev (normalizeString a acc xs)) ys"
  by (induction a acc xs rule: normalizeString.induct) (auto split: list.splits)

lemma normalizeString_out_ok:
  "list_all seg_ok acc \<Longrightarrow> list_all (\<lambda>s. CHR ''/'' \<notin> set s) segs
   \<Longrightarrow> list_all seg_ok (normalizeString False acc segs)"
proof (induction False acc segs rule: normalizeString.induct)
  case (1 acc)
  then show ?case by simp
next
  case (2 acc seg segs)
  then show ?case by (auto simp: seg_ok_def split: list.splits)
qed

lemma split_on_no_sep_elems: "list_all (\<lambda>s. c \<notin> set s) (split_on c s)"
  by (induction s) (auto split: list.splits)

lemma is_absolute_Cons: "is_absolute p \<longleftrightarrow> (\<exists>r. p = CHR ''/'' # r)"
  by (cases p) (auto simp: is_absolute_def starts_with_def)

lemma is_absolute_abs_path [simp]: "is_absolute (abs_path segs)"
  by (simp add: is_absolute_Cons abs_path_def)

lemma abs_path_not_Nil [simp]: "abs_path segs \<noteq> []"
  by (simp add: abs_path_def)

lemma is_absolute_simps [simp]:
  "is_absolute (c # r) = (c = CHR ''/'')" "\<not> is_absolute []"
  "is_absolute (a @ b) = (if a = [] then is_absolute b else is_absolute a)"
  by (cases a; simp add: is_absolute_def starts_with_def)+

text \<open>What resolve computes.\<close>

lemma resolve_absolute:
  "is_absolute p \<Longrightarrow>
   resolve wd p = abs_path (normalizeString False [] (split_on (CHR ''/'') (p @ ''/'')))"
  by (cases p) (auto simp: resolve_def Let_def abs_path_def)

lemma resolve_empty:
  "is_absolute wd \<Longrightarrow>
   resolve wd [] = abs_path (normalizeString False [] (split_on (CHR ''/'') (wd @ ''/'')))"
  by (cases wd) (auto simp: resolve_def Let_def abs_path_def)

lemma resolve_relative:
  "is_absolute wd \<Longrightarrow> \<not> is_absolute p \<Longrightarrow> p \<noteq> [] \<Longrightarrow>
   resolve wd p = abs_path (normalizeString False [] (split_on (CHR ''/'') (wd @ ''/'' @ p @ ''/'')))"
  by (cases wd) (auto simp: resolve_def Let_def abs_path_def)

lemma resolve_is_abs_path:
  assumes "is_absolute wd"
  shows "\<exists>segs. list_all seg_ok segs \<and> resolve wd p = abs_path segs"
proof -
  have ok: "\<And>s. list_all seg_ok (normalizeString False [] (split_on (CHR ''/'') s))"
    using normalizeString_out_ok[of "[]"] by (simp add: split_on_no_sep_elems)
  consider "is_absolute p" | "p = []" | "\<not> is_absolute p" "p \<noteq> []" by blast
  then show ?thesis
  proof cases
    case 1
    then show ?thesis using resolve_absolute[OF 1, of wd] ok by metis
  next
    case 2
    then show ?thesis using resolve_empty[OF assms] ok by metis
  next
    case 3
    then show ?thesis using resolve_relative[OF assms 3] ok by metis
  qed
qed

lemma seg_ok_no_slash: "list_all seg_ok segs \<Longrightarrow> list_all (\<lambda>s. CHR ''/'' \<notin> set s) segs"
  by (induction segs) (auto simp: seg_ok_def)

lemma split_abs_path:
  "list_all seg_ok segs \<Longrightarrow> segs \<noteq> [] \<Longrightarrow> split_on (CHR ''/'') (abs_path segs) = [] # segs"
  using split_on_join[of segs "CHR ''/''"] by (simp add: abs_path_def seg_ok_no_slash)

lemma normalize_segments_abs_path:
  assumes "list_all seg_ok segs"
  shows "normalizeString False [] (split_on (CHR ''/'') (abs_path segs @ CHR ''/'' # rest))
         = normalizeString False (rev segs) (split_on (CHR ''/'') rest)"
proof (cases "segs = []")
  case True
  then show ?thesis by (simp add: abs_path_def)
next
  case False
  have "split_on (CHR ''/'') (abs_path segs @ CHR ''/'' # rest)
        = ([] # segs) @ split_on (CHR ''/'') rest"
    using split_on_append[of "CHR ''/''" "abs_path segs" rest] split_abs_path[OF assms False] by simp
  then show ?thesis
    using normalizeString_append[of False "[]" "[] # segs" "split_on (CHR ''/'') rest"]
      normalizeString_ok[OF assms, of False "[]"]
    by simp
qed

lemma resolve_abs_path:
  assumes "list_all seg_ok segs"
  shows "resolve wd (abs_path segs) = abs_path segs"
  using resolve_absolute[of "abs_path segs" wd] normalize_segments_abs_path[OF assms, of "[]"]
  by simp

lemma resolve_idem: "is_absolute wd \<Longrightarrow> resolve wd' (resolve wd p) = resolve wd p"
  using resolve_is_abs_path[of wd p] resolve_abs_path by auto

lemma abs_path_snoc:
  "segs \<noteq> [] \<Longrightarrow> abs_path (segs @ [x]) = abs_path segs @ ''/'' @ x"
  by (simp add: abs_path_def join_with_snoc)

lemma abs_path_single: "abs_path [x] = ''/'' @ x"
  by (simp add: abs_path_def)

lemma ends_with_slash_iff: "ends_with ''/'' p \<longleftrightarrow> (p \<noteq> [] \<and> last p = CHR ''/'')"
proof (cases p rule: rev_cases)
  case Nil
  then show ?thesis by (simp add: ends_with_def)
next
  case (snoc ys y)
  then show ?thesis by (auto simp: ends_with_def)
qed

lemma join_with_eq_Nil: "list_all seg_ok segs \<Longrightarrow> join_with sep segs = [] \<longleftrightarrow> segs = []"
  by (induction sep segs rule: join_with.induct) (auto simp: seg_ok_def)

text \<open>normalize on an absolute text with no slash at its end.\<close>

lemma normalize_absolute:
  assumes "is_absolute p" "\<not> ends_with ''/'' p"
  shows "normalize p = abs_path (normalizeString False [] (split_on (CHR ''/'') p))"
proof -
  let ?segs = "normalizeString False [] (split_on (CHR ''/'') p)"
  have ok: "list_all seg_ok ?segs"
    using normalizeString_out_ok[of "[]"] by (simp add: split_on_no_sep_elems)
  from assms(1) have "p \<noteq> []" by auto
  with assms show ?thesis
    using join_with_eq_Nil[OF ok, of "''/''"]
    by (auto simp: normalize_def Let_def abs_path_def)
qed

lemma join_abs_path:
  assumes "list_all seg_ok segs" "rest \<noteq> []" "last rest \<noteq> CHR ''/''"
  shows "join [abs_path segs, rest]
         = abs_path (normalizeString False (rev segs) (split_on (CHR ''/'') rest))"
proof -
  have "join [abs_path segs, rest] = normalize (abs_path segs @ CHR ''/'' # rest)"
    using assms(2) by (simp add: join_def)
  also have "\<dots> = abs_path (normalizeString False [] (split_on (CHR ''/'') (abs_path segs @ CHR ''/'' # rest)))"
    using assms(2,3) by (intro normalize_absolute) (auto simp: ends_with_slash_iff)
  finally show ?thesis
    using normalize_segments_abs_path[OF assms(1), of rest] by simp
qed

lemma join_abs_path_seg:
  assumes "list_all seg_ok segs" "seg_ok name"
  shows "join [abs_path segs, name] = abs_path (segs @ [name])"
proof -
  from assms(2) have ne: "name \<noteq> []" and ns: "CHR ''/'' \<notin> set name"
    by (auto simp: seg_ok_def)
  from ne ns have "last name \<noteq> CHR ''/''"
    using last_in_set by metis
  then show ?thesis
    using join_abs_path[OF assms(1) ne] ns assms(2)
    by (simp add: split_on_no_sep seg_ok_def)
qed

text \<open>The parent of the script's directory, and the backup directory under it.\<close>

lemma absolute_is_abs_path_split:
  assumes "is_absolute sd"
  shows "split_on (CHR ''/'') sd = [] # split_on (CHR ''/'') (tl sd)"
  using assms by (cases sd) auto

lemma ROOT_DIR_abs_path:
  assumes "is_absolute (scriptDir w)"
  shows "\<exists>segs. list_all seg_ok segs \<and> ROOT_DIR w = abs_path segs"
proof -
  let ?p = "scriptDir w @ ''/..''"
  from assms have abs: "is_absolute ?p" by auto
  have "\<not> ends_with ''/'' ?p" by (simp add: ends_with_slash_iff)
  then have "normalize ?p = abs_path (normalizeString False [] (split_on (CHR ''/'') ?p))"
    using normalize_absolute[OF abs] by simp
  moreover have "ROOT_DIR w = normalize ?p"
    using assms by (cases "scriptDir w") (auto simp: ROOT_DIR_def join_def)
  moreover have "list_all seg_ok (normalizeString False [] (split_on (CHR ''/'') ?p))"
    using normalizeString_out_ok[of "[]"] by (simp add: split_on_no_sep_elems)
  ultimately show ?thesis by metis
qed

lemma BACKUP_DIR_abs_path:
  assumes "is_absolute (scriptDir w)"
  shows "\<exists>segs. list_all seg_ok segs \<and> BACKUP_DIR w = abs_path (segs @ [''.context'', ''backups''])"
proof -
  from ROOT_DIR_abs_path[OF assms] obtain segs where
    segs: "list_all seg_ok segs" "ROOT_DIR w = abs_path segs" by blast
  have "join [ROOT_DIR w, ''.context'', ''backups''] = normalize (abs_path segs @ CHR ''/'' # ''.context/backups'')"
    using segs(2) by (simp add: join_def)
  also have "\<dots> = abs_path (normalizeString False [] (split_on (CHR ''/'') (abs_path segs @ CHR ''/'' # ''.context/backups'')))"
    by (intro normalize_absolute) (auto simp: ends_with_slash_iff)
  also have "\<dots> = abs_path (segs @ [''.context'', ''backups''])"
    using normalize_segments_abs_path[OF segs(1), of "''.context/backups''"] by simp
  finally show ?thesis using segs(1) by (auto simp: BACKUP_DIR_def)
qed

lemma takeWhile_until: "c \<notin> set x \<Longrightarrow> takeWhile (\<lambda>a. a \<noteq> c) (x @ c # y) = x"
  by (induction x) auto

lemma dropWhile_until: "c \<notin> set x \<Longrightarrow> dropWhile (\<lambda>a. a \<noteq> c) (x @ c # y) = c # y"
  by (induction x) auto

lemma basename_append_seg:
  "x \<noteq> [] \<Longrightarrow> CHR ''/'' \<notin> set x \<Longrightarrow> basename (d @ ''/'' @ x) = x"
proof -
  assume ne: "x \<noteq> []" and ns: "CHR ''/'' \<notin> set x"
  then obtain c r where rx: "rev x = c # r" by (cases "rev x") auto
  with ns have c: "c \<noteq> CHR ''/''" by (metis list.set_intros(1) set_rev)
  have "takeWhile (\<lambda>c. c \<noteq> CHR ''/'') (rev x @ CHR ''/'' # rev d) = rev x"
    using ns by (simp add: takeWhile_until)
  moreover have "dropWhile (\<lambda>c. c = CHR ''/'') (rev x @ CHR ''/'' # rev d) = rev x @ CHR ''/'' # rev d"
    using rx c by simp
  ultimately show ?thesis by (simp add: basename_def)
qed

lemma dirname_append_seg:
  "d \<noteq> [] \<Longrightarrow> CHR ''/'' \<notin> set x \<Longrightarrow> dirname (d @ ''/'' @ x) = d"
proof -
  assume ne: "d \<noteq> []" and ns: "CHR ''/'' \<notin> set x"
  have "dropWhile (\<lambda>c. c \<noteq> CHR ''/'') (rev x @ CHR ''/'' # rev d) = CHR ''/'' # rev d"
    using ns by (simp add: dropWhile_until)
  then show ?thesis using ne by (simp add: dirname_def)
qed

lemma dirname_root_seg: "CHR ''/'' \<notin> set x \<Longrightarrow> dirname (''/'' @ x) = ''/''"
proof -
  assume ns: "CHR ''/'' \<notin> set x"
  have "dropWhile (\<lambda>c. c \<noteq> CHR ''/'') (rev x @ CHR ''/'' # []) = CHR ''/'' # []"
    using ns by (simp add: dropWhile_until)
  then show ?thesis by (simp add: dirname_def)
qed

section \<open>The world under the operations\<close>

lemma lookup_ticks [simp]: "lookup (w\<lparr>ticks := n\<rparr>) q = lookup w q"
  by (simp add: lookup_def)

lemma existsSync_ticks [simp]: "existsSync p (w\<lparr>ticks := n\<rparr>) = existsSync p w"
  by (simp add: existsSync_def)

lemma existsSync_resolve: "is_absolute (cwd w) \<Longrightarrow> existsSync (resolve (cwd w) p) w = existsSync p w"
  by (simp add: existsSync_def resolve_idem)

lemma getBackupPath_eq:
  "getBackupPath p w =
     (Inr (join [BACKUP_DIR w,
             basename p @ ''.''
             @ take (length (iso (clock w (ticks w))) - 5)
                 (map (\<lambda>c. if c = CHR '':'' \<or> c = CHR ''.'' then CHR ''-'' else c) (iso (clock w (ticks w))))
             @ ''.bak'']),
      w\<lparr>ticks := Suc (ticks w)\<rparr>)"
  by (simp add: getBackupPath_def getTimestamp_def bindE_def new_Date_def returnE_def Let_def
      BACKUP_DIR_def ROOT_DIR_def)

section \<open>Missing files\<close>

text \<open>
  C5. When nothing exists at the path, backupFile throws \<^verbatim>\<open>File not found\<close> with the
  resolved path and changes nothing: the file system is as it was, so there is no new
  artifact and no new record. Only the clock has been read once, for the name of the
  artifact, which is computed before the check.
\<close>

theorem backupFile_missing_source:
  assumes "is_absolute (cwd w)" and "\<not> existsSync filePath w"
  shows "backupFile filePath options w
         = (Inl (Error (''File not found: '' @ resolve (cwd w) filePath)), w\<lparr>ticks := Suc (ticks w)\<rparr>)"
  using assms existsSync_resolve[of "w\<lparr>ticks := Suc (ticks w)\<rparr>" filePath]
  by (simp add: backupFile_def bindE_def getBackupPath_eq Let_def)

theorem backupFile_missing_source_witness:
  "is_absolute (cwd example_world) \<and> \<not> existsSync ''/no/such/file'' example_world
   \<and> backupFile ''/no/such/file'' \<lparr>maxBackups = None, comment = None\<rparr> example_world
       = (Inl (Error ''File not found: /no/such/file''), example_world\<lparr>ticks := 1\<rparr>)
   \<and> fs (example_world\<lparr>ticks := 1\<rparr>) = fs example_world"
proof -
  have a: "is_absolute (cwd example_world)"
    by (simp add: example_world_def)
  have r: "resolve (cwd example_world) ''/no/such/file'' = ''/no/such/file''"
    by (simp add: example_world_def resolve_def)
  have h: "\<not> existsSync ''/no/such/file'' example_world"
    by (simp add: existsSync_def r) (simp add: lookup_def example_world_def)
  have t: "Suc (ticks example_world) = 1"
    by (simp add: example_world_def)
  show ?thesis
    using a h backupFile_missing_source[OF a h, of "\<lparr>maxBackups = None, comment = None\<rparr>"] r t
    by simp
qed

text \<open>
  C6. When nothing exists at the backup path, rollback throws \<^verbatim>\<open>Backup not found\<close>
  and leaves the world as it was, whatever the target: nothing is written to the target and
  nothing to the log.
\<close>

theorem rollback_missing_artifact:
  assumes "\<not> existsSync bpath w"
  shows "rollback bpath targetPath w = (Inl (Error (''Backup not found: '' @ bpath)), w)"
  using assms by (simp add: rollback_def)

theorem rollback_missing_artifact_witness:
  "\<not> existsSync ''/no/such/backup.bak'' example_world
   \<and> rollback ''/no/such/backup.bak'' None example_world
       = (Inl (Error ''Backup not found: /no/such/backup.bak''), example_world)"
proof -
  have h: "\<not> existsSync ''/no/such/backup.bak'' example_world"
    by (simp add: existsSync_def lookup_def example_world_def resolve_def is_absolute_def starts_with_def)
  show ?thesis using h rollback_missing_artifact[OF h, of None] by simp
qed

section \<open>Pruning\<close>

text \<open>Lines.\<close>

lemma split_lines:
  "list_all (\<lambda>l. c \<notin> set l) ls \<Longrightarrow> split_on c (concat (map (\<lambda>l. l @ [c]) ls)) = ls @ [[]]"
proof (induction ls)
  case Nil
  show ?case by simp
next
  case (Cons l ls)
  then show ?case
    using split_on_append[of c l "concat (map (\<lambda>l. l @ [c]) ls)"]
    by (simp add: split_on_no_sep)
qed

lemma nonempty_lines:
  "list_all (\<lambda>l. c \<notin> set l \<and> l \<noteq> []) ls \<Longrightarrow>
   filter (\<lambda>l. l \<noteq> []) (split_on c (concat (map (\<lambda>l. l @ [c]) ls))) = ls"
proof -
  assume a: "list_all (\<lambda>l. c \<notin> set l \<and> l \<noteq> []) ls"
  then have "list_all (\<lambda>l. c \<notin> set l) ls" and ne: "list_all (\<lambda>l. l \<noteq> []) ls"
    by (auto simp: list_all_iff)
  then show ?thesis
    using split_lines[of c ls] by (simp add: list_all_iff filter_id_conv)
qed

text \<open>Removing files.\<close>

lemma delete_as_filter: "AList.delete q al = filter (\<lambda>kv. fst kv \<noteq> q) al"
  by (induction al) (auto simp: AList.delete_eq)

lemma map_of_filter_keys:
  "map_of (filter (\<lambda>kv. fst kv \<notin> S) al) q = (if q \<in> S then None else map_of al q)"
  by (induction al) auto

lemma lookup_remove_all:
  "CHR ''/'' # [] \<notin> set qs \<Longrightarrow>
   lookup (remove_all qs w) q = (if q \<in> set qs then None else lookup w q)"
  by (auto simp: lookup_def remove_all_def map_of_filter_keys)

lemma remove_all_Nil [simp]: "remove_all [] w = w"
  by (simp add: remove_all_def)

lemma remove_all_Cons:
  "remove_all (q # qs) w = remove_all qs (w\<lparr>fs := AList.delete q (fs w)\<rparr>)"
  by (simp add: remove_all_def delete_as_filter)

lemma exec_rm_removable:
  "removable w q \<Longrightarrow> exec_rm q w = (Inr (), w\<lparr>fs := AList.delete q (fs w)\<rparr>)"
  by (auto simp: removable_def exec_rm_def Let_def split: option.splits node.splits)

lemma removable_after_delete:
  assumes "removable w q" "q \<noteq> p"
  shows "removable (w\<lparr>fs := AList.delete p (fs w)\<rparr>) q"
proof -
  from assms(1) have "q \<noteq> ''/''"
    by (auto simp: removable_def lookup_def)
  with assms show ?thesis
    by (auto simp: removable_def lookup_def delete_conv' split: option.splits node.splits)
qed

lemma forEach_rm:
  "distinct qs \<Longrightarrow> list_all (removable w) qs \<Longrightarrow>
   forEach exec_rm qs w = (Inr (), remove_all qs w)"
proof (induction qs arbitrary: w)
  case Nil
  show ?case by simp
next
  case (Cons q qs)
  let ?w = "w\<lparr>fs := AList.delete q (fs w)\<rparr>"
  from Cons.prems have "list_all (removable ?w) qs"
    by (auto simp: list_all_iff intro!: removable_after_delete)
  with Cons show ?case
    by (simp add: exec_rm_removable remove_all_Cons)
qed

lemma entries_remove_all: "entries (remove_all qs w) = filter (\<lambda>q. q \<notin> set qs) (entries w)"
proof -
  have "map fst (filter (\<lambda>kv. fst kv \<notin> set qs) (fs w)) = filter (\<lambda>q. q \<notin> set qs) (map fst (fs w))"
    by (induction "fs w") (auto simp: filter_map comp_def)
  then show ?thesis
    by (simp add: entries_def remove_all_def remdups_filter)
qed

lemma BACKUP_DIR_remove_all [simp]: "BACKUP_DIR (remove_all qs w) = BACKUP_DIR w"
  by (simp add: BACKUP_DIR_def ROOT_DIR_def remove_all_def)

lemma distinct_entries [simp]: "distinct (entries w)"
  by (simp add: entries_def)

lemma distinct_ls_matches [simp]: "distinct (ls_matches w stem)"
  by (simp add: ls_matches_def)

lemma set_ls_t [simp]: "set (ls_t w qs) = set qs"
  by (simp add: ls_t_def)

lemma distinct_ls_t [simp]: "distinct (ls_t w qs) = distinct qs"
  by (simp add: ls_t_def)

lemma length_ls_t [simp]: "length (ls_t w qs) = length qs"
  by (simp add: ls_t_def)

lemma insort_key_agree:
  "f x = g x \<Longrightarrow> (\<And>y. y \<in> set ys \<Longrightarrow> f y = g y) \<Longrightarrow> insort_key f x ys = insort_key g x ys"
  by (induction ys) auto

lemma sort_key_agree:
  "(\<And>x. x \<in> set xs \<Longrightarrow> f x = g x) \<Longrightarrow> sort_key f xs = sort_key g xs"
proof (induction xs)
  case Nil
  show ?case by simp
next
  case (Cons x xs)
  then have "sort_key f xs = sort_key g xs" by simp
  moreover have "insort_key f x (sort_key g xs) = insort_key g x (sort_key g xs)"
    using Cons.prems by (intro insort_key_agree) auto
  ultimately show ?case by simp
qed

lemma ls_t_filter:
  assumes "\<And>q. q \<in> set qs \<Longrightarrow> P q \<Longrightarrow> mtime_of w' q = mtime_of w q"
  shows "ls_t w' (filter P qs) = filter P (ls_t w qs)"
proof -
  have "sort_key (\<lambda>q. - int (mtime_of w' q)) (sort (filter P qs))
        = sort_key (\<lambda>q. - int (mtime_of w q)) (sort (filter P qs))"
    using assms by (intro sort_key_agree) auto
  then show ?thesis
    by (simp add: ls_t_def filter_sort)
qed

lemma filter_not_in_second:
  "set a \<inter> set b = {} \<Longrightarrow> filter (\<lambda>q. q \<notin> set b) (a @ b) = a"
  by (auto simp: filter_empty_conv filter_id_conv)

lemma filter_not_in_drop:
  "distinct xs \<Longrightarrow> filter (\<lambda>q. q \<notin> set (drop k xs)) xs = take k xs"
  using filter_not_in_second[of "take k xs" "drop k xs"] distinct_append[of "take k xs" "drop k xs"]
  by simp

lemma ls_t_newest_first:
  assumes "a \<in> set (take k (ls_t w qs))" "b \<in> set (drop k (ls_t w qs))"
  shows "mtime_of w b \<le> mtime_of w a"
proof -
  let ?f = "\<lambda>q. - int (mtime_of w q)"
  have "sorted (map ?f (ls_t w qs))"
    by (simp add: ls_t_def)
  then have "sorted (map ?f (take k (ls_t w qs)) @ map ?f (drop k (ls_t w qs)))"
    by (metis append_take_drop_id map_append)
  with assms have "?f a \<le> ?f b"
    by (auto simp: sorted_append)
  then show ?thesis by simp
qed

lemma dirname_cases:
  "\<exists>rest. CHR ''/'' \<notin> set rest \<and>
     (q = rest \<and> dirname q = ''.''
      \<or> q = ''/'' @ rest \<and> dirname q = ''/''
      \<or> (\<exists>d. d \<noteq> [] \<and> q = d @ ''/'' @ rest \<and> dirname q = d))"
proof -
  define tw where "tw = takeWhile (\<lambda>c. c \<noteq> CHR ''/'') (rev q)"
  define dw where "dw = dropWhile (\<lambda>c. c \<noteq> CHR ''/'') (rev q)"
  have "rev q = tw @ dw"
    by (simp add: tw_def dw_def)
  then have q: "q = rev dw @ rev tw"
    by (metis rev_append rev_rev_ident)
  have ns: "CHR ''/'' \<notin> set (rev tw)"
    using set_takeWhileD[of "CHR ''/''" "\<lambda>c. c \<noteq> CHR ''/''" "rev q"] by (auto simp: tw_def)
  have dn: "dirname q = (if rev dw = [] then ''.'' else if length (rev dw) = 1 then ''/'' else butlast (rev dw))"
    by (simp only: dirname_def dw_def Let_def)
  show ?thesis
  proof (cases dw)
    case Nil
    with q dn have "q = rev tw \<and> dirname q = ''.''" by simp
    with ns show ?thesis by blast
  next
    case (Cons c cs)
    have "dw \<noteq> []" using Cons by simp
    then have "hd dw = CHR ''/''"
      using hd_dropWhile[of "\<lambda>c. c \<noteq> CHR ''/''" "rev q"] by (simp add: dw_def)
    with Cons have c: "c = CHR ''/''" by simp
    show ?thesis
    proof (cases cs)
      case Nil
      with Cons c q dn have "q = ''/'' @ rev tw \<and> dirname q = ''/''" by simp
      with ns show ?thesis by blast
    next
      case (Cons c' cs')
      have r: "rev dw = rev cs @ [c]" using \<open>dw = c # cs\<close> by simp
      have "butlast (rev dw) = rev cs" by (simp only: r butlast_snoc)
      moreover have "length (rev dw) \<noteq> 1" "rev dw \<noteq> []" using Cons \<open>dw = c # cs\<close> by auto
      ultimately have "dirname q = rev cs" using dn by simp
      moreover have "q = rev cs @ ''/'' @ rev tw" using q r c by simp
      moreover have "rev cs \<noteq> []" using Cons by simp
      ultimately show ?thesis using ns by blast
    qed
  qed
qed

lemma length_abs_path_snoc: "x \<noteq> [] \<Longrightarrow> 2 \<le> length (abs_path (segs @ [x]))"
proof (cases "segs = []")
  case True
  assume "x \<noteq> []"
  then have "1 \<le> length x" by (cases x) auto
  with True show ?thesis by (simp add: abs_path_def)
next
  case False
  have "1 \<le> length (abs_path segs)" by (simp add: abs_path_def)
  with False show ?thesis by (simp add: abs_path_snoc)
qed

lemma dirname_eq_abs_path:
  assumes "dirname q = abs_path (segs @ [x])" "x \<noteq> []"
  shows "\<exists>rest. CHR ''/'' \<notin> set rest \<and> q = abs_path (segs @ [x]) @ ''/'' @ rest"
proof -
  have len: "2 \<le> length (dirname q)"
    using length_abs_path_snoc[OF assms(2), of segs] assms(1) by simp
  from dirname_cases[of q] obtain rest where
    ns: "CHR ''/'' \<notin> set rest" and
    alt: "q = rest \<and> dirname q = ''.'' \<or> q = ''/'' @ rest \<and> dirname q = ''/''
          \<or> (\<exists>d. d \<noteq> [] \<and> q = d @ ''/'' @ rest \<and> dirname q = d)" by blast
  from alt len have "\<exists>d. d \<noteq> [] \<and> q = d @ ''/'' @ rest \<and> dirname q = d"
    by (elim disjE) auto
  then have "q = dirname q @ ''/'' @ rest" by metis
  with ns assms(1) show ?thesis by metis
qed

lemma glob_bak_seg_ok:
  assumes "glob_bak stem name" "CHR ''/'' \<notin> set name"
  shows "seg_ok name"
proof -
  from assms(1) have "5 \<le> length name" by (simp add: glob_bak_def)
  then have "name \<noteq> []" "name \<noteq> ''.''" "name \<noteq> ''..''" by auto
  with assms(2) show ?thesis by (simp add: seg_ok_def)
qed

lemma not_glob_backups: "\<not> glob_bak stem ''backups''"
  by (simp add: glob_bak_def ends_with_def)

lemma basename_trailing_slash: "basename (d @ ''/'') = basename d"
  by (simp add: basename_def)

lemma basename_abs_path_snoc: "seg_ok x \<Longrightarrow> basename (abs_path (segs @ [x])) = x"
proof (cases "segs = []")
  case True
  assume "seg_ok x"
  then show ?thesis
    using True basename_append_seg[of x "[]"] by (simp add: abs_path_def seg_ok_def)
next
  case False
  assume "seg_ok x"
  then show ?thesis
    using False basename_append_seg[of x "abs_path segs"] by (simp add: abs_path_snoc seg_ok_def)
qed

lemma ls_match_shape:
  assumes sd: "is_absolute (scriptDir w)" and q: "q \<in> set (ls_matches w stem)"
  shows "\<exists>segs. list_all seg_ok segs \<and> BACKUP_DIR w = abs_path segs \<and> segs \<noteq> []
           \<and> seg_ok (basename q) \<and> q = abs_path (segs @ [basename q])"
proof -
  from BACKUP_DIR_abs_path[OF sd] obtain ys where
    ys: "list_all seg_ok ys" "BACKUP_DIR w = abs_path (ys @ [''.context'', ''backups''])" by blast
  let ?segs = "ys @ [''.context'', ''backups'']"
  have segs: "list_all seg_ok ?segs" using ys(1) by (simp add: seg_ok_def)
  from q have dq: "dirname q = BACKUP_DIR w" and g: "glob_bak stem (basename q)"
    by (auto simp: ls_matches_def split: if_splits)
  from dq ys(2) have "dirname q = abs_path ((ys @ [''.context'']) @ [''backups''])" by simp
  from dirname_eq_abs_path[OF this] obtain rest where
    rest: "CHR ''/'' \<notin> set rest" "q = abs_path ?segs @ ''/'' @ rest" by force
  have "rest \<noteq> []"
  proof
    assume "rest = []"
    with rest(2) have "basename q = basename (abs_path ((ys @ [''.context'']) @ [''backups'']))"
      using basename_trailing_slash[of "abs_path ?segs"] by simp
    also have "\<dots> = ''backups''"
      by (intro basename_abs_path_snoc) (simp add: seg_ok_def)
    finally show False using g not_glob_backups by simp
  qed
  with rest have b: "basename q = rest"
    using basename_append_seg[of rest "abs_path ?segs"] by simp
  with g rest(1) have ok: "seg_ok (basename q)" using glob_bak_seg_ok by simp
  have "q = abs_path (?segs @ [basename q])"
    using rest(2) b abs_path_snoc[of ?segs rest] by simp
  with segs ys(2) ok show ?thesis by blast
qed

lemma ls_match_resolve:
  assumes "is_absolute (scriptDir w)" "q \<in> set (ls_matches w stem)"
  shows "resolve wd q = q" and "q \<noteq> []" and "\<not> starts_with ''-'' q"
proof -
  from ls_match_shape[OF assms] obtain segs where
    s: "list_all seg_ok segs" "seg_ok (basename q)" "q = abs_path (segs @ [basename q])" by blast
  then have "list_all seg_ok (segs @ [basename q])" by simp
  from resolve_abs_path[OF this, of wd] s(3) show "resolve wd q = q" by simp
  from s(3) show "q \<noteq> []" by (metis abs_path_not_Nil)
  from s(3) have "is_absolute q" by (metis is_absolute_abs_path)
  then show "\<not> starts_with ''-'' q" by (cases q) (auto simp: starts_with_def)
qed

lemma ls_match_exists: "q \<in> set (ls_matches w stem) \<Longrightarrow> lookup w q \<noteq> None"
proof -
  assume "q \<in> set (ls_matches w stem)"
  then have "q \<in> set (map fst (fs w))"
    by (auto simp: ls_matches_def entries_def split: if_splits)
  then have "map_of (fs w) q \<noteq> None"
    by (simp add: map_of_eq_None_iff)
  then show ?thesis by (simp add: lookup_def)
qed

lemma ls_match_removable:
  assumes "clean_modelled w stem" "q \<in> set (ls_matches w stem)"
  shows "removable w q"
proof -
  from assms have sd: "is_absolute (scriptDir w)" and lit: "shell_literal q"
    and nd: "lookup w q \<noteq> Some Dir"
    by (auto simp: clean_modelled_def list_all_iff)
  from ls_match_exists[OF assms(2)] nd obtain c m where "lookup w q = Some (File c m)"
    by (cases "lookup w q") (auto intro: node.exhaust)
  with lit ls_match_resolve(1)[OF sd assms(2), of "cwd w"] ls_match_resolve(3)[OF sd assms(2)]
  show ?thesis
    by (simp add: removable_def)
qed

lemma exec_ls_modelled:
  assumes "clean_modelled w stem"
  shows "exec_ls stem w = (Inr (concat (map (\<lambda>q. q @ [CHR 0x0A]) (ls_t w (ls_matches w stem)))), w)"
proof -
  from assms have "\<not> list_ex (\<lambda>q. lookup w q = Some Dir) (ls_matches w stem)"
    by (auto simp: clean_modelled_def list_all_iff list_ex_iff)
  with assms show ?thesis
    by (simp add: exec_ls_def clean_modelled_def Let_def)
qed

lemma ls_lines:
  assumes "clean_modelled w stem"
  shows "filter (\<lambda>l. l \<noteq> [])
           (split_on (CHR 0x0A) (concat (map (\<lambda>q. q @ [CHR 0x0A]) (ls_t w (ls_matches w stem)))))
         = ls_t w (ls_matches w stem)"
proof (rule nonempty_lines)
  from assms have sd: "is_absolute (scriptDir w)" by (simp add: clean_modelled_def)
  show "list_all (\<lambda>l. CHR 0x0A \<notin> set l \<and> l \<noteq> []) (ls_t w (ls_matches w stem))"
    using assms ls_match_resolve(2)[OF sd]
    by (auto simp: list_all_iff clean_modelled_def)
qed

lemma cleanOldBackups_run:
  assumes m: "clean_modelled w stem" and stem: "stem = last (split_on (CHR ''/'') originalPath')"
    and k: "0 \<le> keep"
  shows "cleanOldBackups originalPath' keep w
         = (Inr (), remove_all (drop (nat keep) (ls_t w (ls_matches w stem))) w)"
proof -
  let ?sorted = "ls_t w (ls_matches w stem)"
  let ?D = "drop (nat keep) ?sorted"
  have sl: "slice_from keep ?sorted = ?D" using k by (simp add: slice_from_def)
  have run: "cleanOldBackups originalPath' keep w
             = (if int (length ?sorted) > keep then forEach exec_rm ?D w else (Inr (), w))"
    using exec_ls_modelled[OF m] ls_lines[OF m] sl stem
    by (simp add: cleanOldBackups_def bindE_def returnE_def Let_def)
  show ?thesis
  proof (cases "int (length ?sorted) > keep")
    case True
    have "distinct ?D" by simp
    moreover have "list_all (removable w) ?D"
      using ls_match_removable[OF m] by (auto simp: list_all_iff dest: in_set_dropD)
    ultimately show ?thesis using run True forEach_rm by simp
  next
    case False
    with k have "?D = []" by simp
    with run False show ?thesis by simp
  qed
qed

lemma logPath_abs_path:
  assumes "is_absolute (scriptDir w)"
  shows "\<exists>segs. list_all seg_ok segs \<and> segs \<noteq> [] \<and> BACKUP_DIR w = abs_path segs
           \<and> logPath w = abs_path (segs @ [''operations.jsonl''])"
proof -
  from BACKUP_DIR_abs_path[OF assms] obtain ys where
    ys: "list_all seg_ok ys" "BACKUP_DIR w = abs_path (ys @ [''.context'', ''backups''])" by blast
  let ?segs = "ys @ [''.context'', ''backups'']"
  have segs: "list_all seg_ok ?segs" using ys(1) by (simp add: seg_ok_def)
  have "logPath w = abs_path (?segs @ [''operations.jsonl''])"
    using join_abs_path_seg[OF segs, of "''operations.jsonl''"] ys(2)
    by (simp add: logPath_def seg_ok_def)
  with segs ys(2) show ?thesis by blast
qed

lemma logPath_not_match:
  assumes "is_absolute (scriptDir w)"
  shows "logPath w \<notin> set (ls_matches w stem)"
proof
  assume "logPath w \<in> set (ls_matches w stem)"
  then have g: "glob_bak stem (basename (logPath w))"
    by (auto simp: ls_matches_def split: if_splits)
  from logPath_abs_path[OF assms] obtain segs where
    "logPath w = abs_path (segs @ [''operations.jsonl''])" by blast
  then have "basename (logPath w) = ''operations.jsonl''"
    using basename_abs_path_snoc[of "''operations.jsonl''" segs] by (simp add: seg_ok_def)
  with g show False by (simp add: glob_bak_def ends_with_def)
qed

lemma ls_matches_remove_all:
  assumes m: "clean_modelled w stem" and sub: "set D \<subseteq> set (ls_matches w stem)"
  shows "ls_matches (remove_all D w) stem = filter (\<lambda>q. q \<notin> set D) (ls_matches w stem)"
    and "\<And>q. lookup (remove_all D w) q = (if q \<in> set D then None else lookup w q)"
proof -
  from m have sd: "is_absolute (scriptDir w)" by (simp add: clean_modelled_def)
  have root: "''/'' \<notin> set D"
  proof
    assume "''/'' \<in> set D"
    with sub have "''/'' \<in> set (ls_matches w stem)" by blast
    from ls_match_shape[OF sd this] obtain segs x where e: "''/'' = abs_path (segs @ [x])" and "seg_ok x"
      by blast
    then have "2 \<le> length (abs_path (segs @ [x]))"
      using length_abs_path_snoc[of x segs] by (simp add: seg_ok_def)
    then have "2 \<le> length ''/''" by (simp only: e[symmetric])
    then show False by simp
  qed
  then show lk: "\<And>q. lookup (remove_all D w) q = (if q \<in> set D then None else lookup w q)"
    by (simp add: lookup_remove_all)
  have "BACKUP_DIR w \<notin> set D"
  proof
    assume "BACKUP_DIR w \<in> set D"
    with sub have in_ms: "BACKUP_DIR w \<in> set (ls_matches w stem)" by blast
    then have "lookup w (BACKUP_DIR w) = Some Dir"
      by (auto simp: ls_matches_def split: if_splits)
    moreover from m in_ms have "lookup w (BACKUP_DIR w) \<noteq> Some Dir"
      by (auto simp: clean_modelled_def list_all_iff)
    ultimately show False by simp
  qed
  with lk have "lookup (remove_all D w) (BACKUP_DIR w) = lookup w (BACKUP_DIR w)" by simp
  then show "ls_matches (remove_all D w) stem = filter (\<lambda>q. q \<notin> set D) (ls_matches w stem)"
    by (auto simp: ls_matches_def entries_remove_all intro: filter_cong)
qed

lemma cleanOldBackups_post:
  assumes m: "clean_modelled w stem" and stem: "stem = last (split_on (CHR ''/'') originalPath')"
    and k: "0 \<le> keep" and run: "cleanOldBackups originalPath' keep w = (r, w')"
  shows "r = Inr ()
    \<and> ls_t w' (ls_matches w' stem) = take (nat keep) (ls_t w (ls_matches w stem))
    \<and> length (ls_matches w' stem) = min (nat keep) (length (ls_matches w stem))
    \<and> (\<forall>a \<in> set (ls_matches w' stem). \<forall>b \<in> set (ls_matches w stem) - set (ls_matches w' stem).
          mtime_of w b \<le> mtime_of w a)
    \<and> (\<forall>q. q \<notin> set (ls_matches w stem) \<longrightarrow> lookup w' q = lookup w q)
    \<and> (\<forall>q \<in> set (ls_matches w' stem). lookup w' q = lookup w q)
    \<and> lookup w' (logPath w) = lookup w (logPath w)
    \<and> (keep = 0 \<longrightarrow> ls_matches w' stem = [])
    \<and> (ls_matches w stem = [] \<longrightarrow> w' = w)"
proof -
  let ?sorted = "ls_t w (ls_matches w stem)"
  let ?D = "drop (nat keep) ?sorted"
  from m have sd: "is_absolute (scriptDir w)" by (simp add: clean_modelled_def)
  from cleanOldBackups_run[OF m stem k] run have r: "r = Inr ()" and w': "w' = remove_all ?D w"
    by simp_all
  have sub: "set ?D \<subseteq> set (ls_matches w stem)"
    using set_drop_subset[of "nat keep" ?sorted] by simp
  note post = ls_matches_remove_all[OF m sub]
  have ms': "ls_matches w' stem = filter (\<lambda>q. q \<notin> set ?D) (ls_matches w stem)"
    using post(1) w' by simp
  have lk: "\<And>q. lookup w' q = (if q \<in> set ?D then None else lookup w q)"
    using post(2) w' by simp
  have "ls_t w' (filter (\<lambda>q. q \<notin> set ?D) (ls_matches w stem)) = filter (\<lambda>q. q \<notin> set ?D) ?sorted"
    by (rule ls_t_filter) (simp add: mtime_of_def lk)
  then have listing: "ls_t w' (ls_matches w' stem) = take (nat keep) ?sorted"
    using ms' filter_not_in_drop[of ?sorted "nat keep"] by simp
  then have "length (ls_t w' (ls_matches w' stem)) = length (take (nat keep) ?sorted)" by simp
  then have len: "length (ls_matches w' stem) = min (nat keep) (length (ls_matches w stem))"
    by (simp add: min.commute)
  have set': "set (ls_matches w' stem) = set (take (nat keep) ?sorted)"
    using listing by (metis set_ls_t)
  have setD: "set (ls_matches w stem) - set (ls_matches w' stem) \<subseteq> set ?D"
    using ms' by auto
  have order: "\<forall>a \<in> set (ls_matches w' stem). \<forall>b \<in> set (ls_matches w stem) - set (ls_matches w' stem).
          mtime_of w b \<le> mtime_of w a"
    using ls_t_newest_first[of _ "nat keep" w "ls_matches w stem"] set' setD by blast
  have frame: "\<forall>q. q \<notin> set (ls_matches w stem) \<longrightarrow> lookup w' q = lookup w q"
    using lk sub by auto
  have kept: "\<forall>q \<in> set (ls_matches w' stem). lookup w' q = lookup w q"
    using lk ms' by auto
  have log: "lookup w' (logPath w) = lookup w (logPath w)"
    using frame logPath_not_match[OF sd] by blast
  have zero: "keep = 0 \<longrightarrow> ls_matches w' stem = []"
    using len by auto
  have noop: "ls_matches w stem = [] \<longrightarrow> w' = w"
    using w' by auto
  from r listing len order frame kept log zero noop show ?thesis by blast
qed

text \<open>
  C7, as amended. The family of a file is what the shell pattern of cleanOldBackups matches:
  the entries of the backup directory named as the file's last path segment, a dot, any
  characters, and \<^verbatim>\<open>.bak\<close>. The statement is for the calls that the shell reads as
  they are written (\<open>clean_modelled\<close>): the script directory is absolute; the backup
  directory, the last path segment and the members of the family hold no double quote,
  dollar sign, backquote, backslash or NUL; no member holds a line feed; and no member is a
  directory. There, for a retention count that is not negative,
  cleanOldBackups succeeds; the family listed newest first afterwards is the first
  \<open>keep\<close> entries of that listing before, so \<open>min keep n\<close> of \<open>n\<close> members are
  left and no member left is older than a member removed; every entry outside the family, the
  log among them, and every member left is as it was. A count of zero removes the family, and
  an empty family leaves the world as it is.
\<close>

theorem cleanOldBackups_retention:
  assumes "clean_modelled w stem" and "stem = last (split_on (CHR ''/'') originalPath')"
    and "0 \<le> keep" and "cleanOldBackups originalPath' keep w = (r, w')"
  shows "r = Inr ()
    \<and> ls_t w' (ls_matches w' stem) = take (nat keep) (ls_t w (ls_matches w stem))
    \<and> length (ls_matches w' stem) = min (nat keep) (length (ls_matches w stem))
    \<and> (\<forall>a \<in> set (ls_matches w' stem). \<forall>b \<in> set (ls_matches w stem) - set (ls_matches w' stem).
          mtime_of w b \<le> mtime_of w a)
    \<and> (\<forall>q. q \<notin> set (ls_matches w stem) \<longrightarrow> lookup w' q = lookup w q)
    \<and> (\<forall>q \<in> set (ls_matches w' stem). lookup w' q = lookup w q)
    \<and> lookup w' (logPath w) = lookup w (logPath w)
    \<and> (keep = 0 \<longrightarrow> ls_matches w' stem = [])
    \<and> (ls_matches w stem = [] \<longrightarrow> w' = w)"
  using assms by (rule cleanOldBackups_post)

theorem cleanOldBackups_retention_witness:
  "clean_modelled pruning_world ''notes.txt''
   \<and> ''notes.txt'' = last (split_on (CHR ''/'') ''/r/notes.txt'') \<and> (0::int) \<le> 2
   \<and> fst (cleanOldBackups ''/r/notes.txt'' 2 pruning_world) = Inr ()
   \<and> ls_t (snd (cleanOldBackups ''/r/notes.txt'' 2 pruning_world))
        (ls_matches (snd (cleanOldBackups ''/r/notes.txt'' 2 pruning_world)) ''notes.txt'')
       = [''/r/.context/backups/notes.txt.2025-12-30T17-35-00.bak'',
          ''/r/.context/backups/notes.txt.2025-12-30T17-34-00.bak'']
   \<and> length (ls_matches (snd (cleanOldBackups ''/r/notes.txt'' 2 pruning_world)) ''notes.txt'') = 2
   \<and> length (ls_matches pruning_world ''notes.txt'') = 6"
proof -
  have m: "clean_modelled pruning_world ''notes.txt''" by code_simp
  have s: "''notes.txt'' = last (split_on (CHR ''/'') ''/r/notes.txt'')" by code_simp
  have k: "(0::int) \<le> 2" by simp
  have run: "cleanOldBackups ''/r/notes.txt'' 2 pruning_world
             = (fst (cleanOldBackups ''/r/notes.txt'' 2 pruning_world),
                snd (cleanOldBackups ''/r/notes.txt'' 2 pruning_world))" by simp
  have before: "take 2 (ls_t pruning_world (ls_matches pruning_world ''notes.txt''))
      = [''/r/.context/backups/notes.txt.2025-12-30T17-35-00.bak'',
         ''/r/.context/backups/notes.txt.2025-12-30T17-34-00.bak'']" by code_simp
  have n: "length (ls_matches pruning_world ''notes.txt'') = 6" by code_simp
  note t = cleanOldBackups_retention[OF m s k run]
  from t have r: "fst (cleanOldBackups ''/r/notes.txt'' 2 pruning_world) = Inr ()" by (rule conjunct1)
  from t have l: "ls_t (snd (cleanOldBackups ''/r/notes.txt'' 2 pruning_world))
          (ls_matches (snd (cleanOldBackups ''/r/notes.txt'' 2 pruning_world)) ''notes.txt'')
        = take (nat 2) (ls_t pruning_world (ls_matches pruning_world ''notes.txt''))"
    by (rule conjunct1[OF conjunct2])
  from t have c: "length (ls_matches (snd (cleanOldBackups ''/r/notes.txt'' 2 pruning_world)) ''notes.txt'')
        = min (nat 2) (length (ls_matches pruning_world ''notes.txt''))"
    by (rule conjunct1[OF conjunct2[OF conjunct2]])
  have n2: "nat 2 = 2" by simp
  have l': "ls_t (snd (cleanOldBackups ''/r/notes.txt'' 2 pruning_world))
          (ls_matches (snd (cleanOldBackups ''/r/notes.txt'' 2 pruning_world)) ''notes.txt'')
       = [''/r/.context/backups/notes.txt.2025-12-30T17-35-00.bak'',
          ''/r/.context/backups/notes.txt.2025-12-30T17-34-00.bak'']"
    unfolding l n2 before by (rule refl)
  have c': "length (ls_matches (snd (cleanOldBackups ''/r/notes.txt'' 2 pruning_world)) ''notes.txt'') = 2"
    unfolding c n by simp
  from m s k r l' c' n show ?thesis by (intro conjI)
qed

text \<open>
  The family is not every artifact whose name starts with the file's name: pruning
  \<^verbatim>\<open>src/main.ts\<close> down to nothing leaves the artifact of \<^verbatim>\<open>main.tsx\<close>, whose
  name starts with \<^verbatim>\<open>main.ts\<close>.
\<close>

theorem cleanOldBackups_prefix_counterexample:
  "fst (cleanOldBackups ''src/main.ts'' 0 pruning_world) = Inr ()
   \<and> filter (\<lambda>q. dirname q = ''/r/.context/backups'' \<and> starts_with ''main.ts'' (basename q))
        (entries (snd (cleanOldBackups ''src/main.ts'' 0 pruning_world)))
     = [''/r/.context/backups/main.tsx.2025-12-30T17-30-00.bak'']"
  by code_simp

text \<open>
  C10. In the clean command a retention count that parseInt reads as 0, or does not read as
  a number, is replaced by 5: main runs cleanOldBackups with 5, prints that it keeps 5 and
  exits with 0 (or with 1 and the error cleanOldBackups throws). So \<^verbatim>\<open>clean <file> 0\<close>
  leaves the five newest members of the file's family where the model covers the listing.
\<close>

theorem clean_keep_zero_is_five:
  assumes "arg args 0 = Some ''clean''" and "arg args 1 = Some file" and "file \<noteq> []"
    and "parseInt (arg args 2) = None \<or> parseInt (arg args 2) = Some 0"
    and "main args w = (res, w')"
  shows "(res, w') = (case cleanOldBackups file 5 w of
                        (Inl e, w1) \<Rightarrow> (\<lparr>exit_code = 1, stdout = [], failure = Some e\<rparr>, w1)
                      | (Inr u, w1) \<Rightarrow> (\<lparr>exit_code = 0, stdout = [Cleaned file 5], failure = None\<rparr>, w1))
    \<and> (clean_modelled w (last (split_on (CHR ''/'') file)) \<longrightarrow>
          res = \<lparr>exit_code = 0, stdout = [Cleaned file 5], failure = None\<rparr>
          \<and> ls_t w' (ls_matches w' (last (split_on (CHR ''/'') file)))
              = take 5 (ls_t w (ls_matches w (last (split_on (CHR ''/'') file)))))"
proof -
  from assms(4) have keep: "or_default (parseInt (arg args 2)) 5 = 5"
    by (auto simp: or_default_def)
  have run: "main args w = (case cleanOldBackups file 5 w of
                        (Inl e, w1) \<Rightarrow> (\<lparr>exit_code = 1, stdout = [], failure = Some e\<rparr>, w1)
                      | (Inr u, w1) \<Rightarrow> (\<lparr>exit_code = 0, stdout = [Cleaned file 5], failure = None\<rparr>, w1))"
    using assms(1-3) keep
    by (simp add: main_def run_command_def Let_def split: prod.splits sum.splits)
  show ?thesis
  proof (intro conjI impI)
    show "(res, w') = (case cleanOldBackups file 5 w of
                        (Inl e, w1) \<Rightarrow> (\<lparr>exit_code = 1, stdout = [], failure = Some e\<rparr>, w1)
                      | (Inr u, w1) \<Rightarrow> (\<lparr>exit_code = 0, stdout = [Cleaned file 5], failure = None\<rparr>, w1))"
      using run assms(5) by simp
  next
    assume m: "clean_modelled w (last (split_on (CHR ''/'') file))"
    obtain r w1 where c: "cleanOldBackups file 5 w = (r, w1)" by (cases "cleanOldBackups file 5 w")
    from cleanOldBackups_post[OF m refl _ c] have
      r: "r = Inr ()" and
      l: "ls_t w1 (ls_matches w1 (last (split_on (CHR ''/'') file)))
          = take (nat 5) (ls_t w (ls_matches w (last (split_on (CHR ''/'') file))))"
      by simp_all
    from run assms(5) c r have res: "res = \<lparr>exit_code = 0, stdout = [Cleaned file 5], failure = None\<rparr>"
      and w1: "w' = w1" by simp_all
    show "res = \<lparr>exit_code = 0, stdout = [Cleaned file 5], failure = None\<rparr>" by (rule res)
    show "ls_t w' (ls_matches w' (last (split_on (CHR ''/'') file)))
          = take 5 (ls_t w (ls_matches w (last (split_on (CHR ''/'') file))))"
      using l w1 by simp
  qed
qed

theorem clean_keep_zero_is_five_witness:
  "arg [''clean'', ''notes.txt'', ''0''] 0 = Some ''clean''
   \<and> arg [''clean'', ''notes.txt'', ''0''] 1 = Some ''notes.txt'' \<and> ''notes.txt'' \<noteq> []
   \<and> parseInt (arg [''clean'', ''notes.txt'', ''0''] 2) = Some 0
   \<and> clean_modelled pruning_world ''notes.txt''
   \<and> fst (main [''clean'', ''notes.txt'', ''0''] pruning_world)
       = \<lparr>exit_code = 0, stdout = [Cleaned ''notes.txt'' 5], failure = None\<rparr>
   \<and> ls_t (snd (main [''clean'', ''notes.txt'', ''0''] pruning_world))
        (ls_matches (snd (main [''clean'', ''notes.txt'', ''0''] pruning_world)) ''notes.txt'')
       = [''/r/.context/backups/notes.txt.2025-12-30T17-35-00.bak'',
          ''/r/.context/backups/notes.txt.2025-12-30T17-34-00.bak'',
          ''/r/.context/backups/notes.txt.2025-12-30T17-33-00.bak'',
          ''/r/.context/backups/notes.txt.2025-12-30T17-32-00.bak'',
          ''/r/.context/backups/notes.txt.2025-12-30T17-31-00.bak'']"
proof -
  have a0: "arg [''clean'', ''notes.txt'', ''0''] 0 = Some ''clean''" by (simp add: arg_def)
  have a1: "arg [''clean'', ''notes.txt'', ''0''] 1 = Some ''notes.txt''" by (simp add: arg_def)
  have ne: "''notes.txt'' \<noteq> []" by simp
  have p: "parseInt (arg [''clean'', ''notes.txt'', ''0''] 2) = Some 0" by code_simp
  have m: "clean_modelled pruning_world ''notes.txt''" by code_simp
  have s: "last (split_on (CHR ''/'') ''notes.txt'') = ''notes.txt''" by code_simp
  have before: "take 5 (ls_t pruning_world (ls_matches pruning_world ''notes.txt''))
      = [''/r/.context/backups/notes.txt.2025-12-30T17-35-00.bak'',
         ''/r/.context/backups/notes.txt.2025-12-30T17-34-00.bak'',
         ''/r/.context/backups/notes.txt.2025-12-30T17-33-00.bak'',
         ''/r/.context/backups/notes.txt.2025-12-30T17-32-00.bak'',
         ''/r/.context/backups/notes.txt.2025-12-30T17-31-00.bak'']" by code_simp
  have run: "main [''clean'', ''notes.txt'', ''0''] pruning_world
             = (fst (main [''clean'', ''notes.txt'', ''0''] pruning_world),
                snd (main [''clean'', ''notes.txt'', ''0''] pruning_world))" by simp
  note t = clean_keep_zero_is_five[OF a0 a1 ne disjI2[OF p] run, unfolded s]
  from t m have
    r: "fst (main [''clean'', ''notes.txt'', ''0''] pruning_world)
        = \<lparr>exit_code = 0, stdout = [Cleaned ''notes.txt'' 5], failure = None\<rparr>" and
    l: "ls_t (snd (main [''clean'', ''notes.txt'', ''0''] pruning_world))
          (ls_matches (snd (main [''clean'', ''notes.txt'', ''0''] pruning_world)) ''notes.txt'')
        = take 5 (ls_t pruning_world (ls_matches pruning_world ''notes.txt''))"
    by blast+
  from a0 a1 ne p m r l[unfolded before] show ?thesis by (intro conjI)
qed

section \<open>Reading back what JSON.stringify wrote\<close>

lemma hex_val_hex: "k < 16 \<Longrightarrow> hex_val (hex k) = Some k"
proof -
  assume "k < 16"
  then have "k = 0 \<or> k = 1 \<or> k = 2 \<or> k = 3 \<or> k = 4 \<or> k = 5 \<or> k = 6 \<or> k = 7 \<or> k = 8
      \<or> k = 9 \<or> k = 10 \<or> k = 11 \<or> k = 12 \<or> k = 13 \<or> k = 14 \<or> k = 15" by arith
  then show ?thesis
    by (elim disjE) (simp_all add: hex_def hex_val_def is_digit_def)
qed

lemma hex_val_zero: "hex_val (CHR ''0'') = Some 0"
  by (simp add: hex_val_def is_digit_def)

lemma lex_quote_char: "lex_string (quote_char c @ rest) = cons_fst c (lex_string rest)"
proof -
  consider (dq) "c = CHR 0x22" | (bs) "c = CHR 0x5C" | (b) "c = CHR 0x08" | (f) "c = CHR 0x0C"
    | (n) "c = CHR 0x0A" | (r) "c = CHR 0x0D" | (t) "c = CHR 0x09"
    | (ctl) "c \<notin> {CHR 0x22, CHR 0x5C, CHR 0x08, CHR 0x0C, CHR 0x0A, CHR 0x0D, CHR 0x09}" "(of_char c :: nat) < 32"
    | (plain) "c \<notin> {CHR 0x22, CHR 0x5C, CHR 0x08, CHR 0x0C, CHR 0x0A, CHR 0x0D, CHR 0x09}" "\<not> (of_char c :: nat) < 32"
    by blast
  then show ?thesis
  proof cases
    case ctl
    let ?n = "of_char c :: nat"
    have h1: "hex_val (hex (?n div 16)) = Some (?n div 16)" using ctl(2) by (intro hex_val_hex) simp
    have h2: "hex_val (hex (?n mod 16)) = Some (?n mod 16)" by (intro hex_val_hex) simp
    have q: "quote_char c = [CHR 0x5C, CHR ''u'', CHR ''0'', CHR ''0'', hex (?n div 16), hex (?n mod 16)]"
      using ctl by (simp add: quote_char_def)
    have v: "((0 * 16 + 0) * 16 + ?n div 16) * 16 + ?n mod 16 = ?n" by simp
    have lt: "?n < 256" using ctl(2) by simp
    show ?thesis
      unfolding q using h1 h2 hex_val_zero lt by (simp add: Let_def)
  qed (simp_all add: quote_char_def unescape_def)
qed

lemma lex_string_quoted:
  "lex_string (concat (map quote_char s) @ CHR 0x22 # rest) = Inr (s, rest)"
  by (induction s) (simp_all add: lex_quote_char cons_fst_def)

lemma tokenize_quoted:
  "tokenize (QuoteJSONString s @ rest) = map_sum id ((#) (TString s)) (tokenize rest)"
  by (simp add: QuoteJSONString_def lex_string_quoted is_json_ws_def)

lemma tokenize_member:
  "tokenize (member k v @ rest)
   = map_sum id (\<lambda>ts. TString k # TColon # TString v # ts) (tokenize rest)"
proof -
  have "tokenize (member k v @ rest) = tokenize (QuoteJSONString k @ (CHR '':'' # QuoteJSONString v @ rest))"
    by (simp add: member_def)
  also have "\<dots> = map_sum id ((#) (TString k)) (tokenize (CHR '':'' # QuoteJSONString v @ rest))"
    by (rule tokenize_quoted)
  also have "tokenize (CHR '':'' # QuoteJSONString v @ rest)
             = map_sum id ((#) TColon) (map_sum id ((#) (TString v)) (tokenize rest))"
    by (simp add: is_json_ws_def tokenize_quoted)
  finally show ?thesis by (cases "tokenize rest") simp_all
qed

lemma tokenize_stringify:
  "tokenize (JSON_stringify r)
   = Inr ([TLBrace, TString ''timestamp'', TColon, TString (timestamp r), TComma,
           TString ''originalPath'', TColon, TString (originalPath r), TComma,
           TString ''backupPath'', TColon, TString (backupPath r), TComma,
           TString ''operation'', TColon, TString (operation r)]
          @ (case comment' r of None \<Rightarrow> [] | Some c \<Rightarrow> [TComma, TString ''comment'', TColon, TString c])
          @ [TRBrace])"
proof (cases "comment' r")
  case None
  have "JSON_stringify r
        = CHR ''{'' # member ''timestamp'' (timestamp r) @ CHR '','' # member ''originalPath'' (originalPath r)
          @ CHR '','' # member ''backupPath'' (backupPath r) @ CHR '','' # member ''operation'' (operation r)
          @ ''}''"
    using None by (simp add: JSON_stringify_def)
  then show ?thesis
    using None by (simp add: tokenize_member is_json_ws_def)
next
  case (Some c)
  have "JSON_stringify r
        = CHR ''{'' # member ''timestamp'' (timestamp r) @ CHR '','' # member ''originalPath'' (originalPath r)
          @ CHR '','' # member ''backupPath'' (backupPath r) @ CHR '','' # member ''operation'' (operation r)
          @ CHR '','' # member ''comment'' c @ ''}''"
    using Some by (simp add: JSON_stringify_def)
  then show ?thesis
    using Some by (simp add: tokenize_member is_json_ws_def)
qed

lemma JSON_parse_stringify: "JSON_parse (JSON_stringify r) = Inr (record_json r)"
proof (cases "comment' r")
  case None
  then show ?thesis
    by (simp add: JSON_parse_def tokenize_stringify record_json_def cons_fst_def)
next
  case (Some c)
  then show ?thesis
    by (simp add: JSON_parse_def tokenize_stringify record_json_def cons_fst_def)
qed

lemma quote_char_no_newline: "CHR 0x0A \<notin> set (quote_char c)"
proof -
  have "\<And>k. k < 16 \<Longrightarrow> hex k \<noteq> CHR 0x0A"
  proof -
    fix k :: nat assume "k < 16"
    then have "hex_val (hex k) = Some k" by (rule hex_val_hex)
    moreover have "hex_val (CHR 0x0A) = None" by (simp add: hex_val_def is_digit_def)
    ultimately show "hex k \<noteq> CHR 0x0A" by auto
  qed
  then have "hex (of_char c div 16) \<noteq> CHR 0x0A" "hex (of_char c mod 16) \<noteq> CHR 0x0A"
    if "(of_char c :: nat) < 32" using that by simp_all
  then show ?thesis by (auto simp: quote_char_def)
qed

lemma QuoteJSONString_no_newline: "CHR 0x0A \<notin> set (QuoteJSONString s)"
  using quote_char_no_newline by (auto simp: QuoteJSONString_def)

lemma member_no_newline: "CHR 0x0A \<notin> set (member k v)"
  using QuoteJSONString_no_newline by (simp add: member_def)

lemma join_with_no_newline:
  "list_all (\<lambda>m. CHR 0x0A \<notin> set m) ms \<Longrightarrow> CHR 0x0A \<notin> set (join_with '','' ms)"
  by (induction "'',''" ms rule: join_with.induct) auto

lemma stringify_no_newline: "CHR 0x0A \<notin> set (JSON_stringify r)"
proof -
  have "CHR 0x0A \<notin> set (join_with '',''
          ([member ''timestamp'' (timestamp r), member ''originalPath'' (originalPath r),
            member ''backupPath'' (backupPath r), member ''operation'' (operation r)]
           @ (case comment' r of None \<Rightarrow> [] | Some c \<Rightarrow> [member ''comment'' c])))"
    by (intro join_with_no_newline) (simp add: member_no_newline split: option.splits)
  then show ?thesis by (simp add: JSON_stringify_def)
qed

lemma stringify_not_Nil: "JSON_stringify r \<noteq> []"
  by (simp add: JSON_stringify_def)

section \<open>What the operations do to the world\<close>

lemma same_env_refl [simp]: "same_env w w"
  by (simp add: same_env_def)

lemma same_env_trans: "same_env w w1 \<Longrightarrow> same_env w1 w2 \<Longrightarrow> same_env w w2"
  by (simp add: same_env_def)

lemma same_env_ticks [simp]: "same_env w (w'\<lparr>ticks := n\<rparr>) = same_env w w'"
  by (simp add: same_env_def)

lemma same_env_fs [simp]: "same_env w (w'\<lparr>fs := al\<rparr>) = same_env w w'"
  by (simp add: same_env_def)

lemma same_env_paths:
  "same_env w w' \<Longrightarrow> BACKUP_DIR w' = BACKUP_DIR w \<and> logPath w' = logPath w \<and> cwd w' = cwd w"
  by (simp add: same_env_def BACKUP_DIR_def ROOT_DIR_def logPath_def)

lemma put_file_written: "put_file q c w = (Inr (), written q c w)"
  by (simp add: put_file_def written_def)

lemma written_env [simp]: "same_env w (written q c w)"
  by (simp add: written_def)

lemma written_ticks [simp]: "ticks (written q c w) = Suc (ticks w)"
  by (simp add: written_def)

lemma lookup_written:
  "q \<noteq> ''/'' \<Longrightarrow>
   lookup (written q c w) q' = (if q' = q then Some (File c (millis (clock w (ticks w)))) else lookup w q')"
  by (auto simp: lookup_def written_def update_conv')

lemma lookup_not_root: "lookup w q \<noteq> Some Dir \<Longrightarrow> q \<noteq> ''/''"
  by (auto simp: lookup_def)

text \<open>Where the kernel's walk ends is the path that \<^verbatim>\<open>path.resolve\<close> gives, and a
  walk stays possible while the directories stay.\<close>

lemma walk_normalize:
  "''..'' \<notin> set acc \<Longrightarrow> walk w p acc segs = Inr q
   \<Longrightarrow> q = abs_path (normalizeString False acc segs)"
proof (induction segs arbitrary: acc)
  case Nil
  then show ?case by (simp add: abs_path_def)
next
  case (Cons seg segs)
  show ?case
  proof (cases "seg = [] \<or> seg = ''.''")
    case True
    with Cons show ?thesis by simp
  next
    case False
    show ?thesis
    proof (cases "seg = ''..''")
      case True
      from Cons.prems(1) have t: "''..'' \<notin> set (tl acc)" by (cases acc) auto
      from True Cons.prems(2) have "walk w p (tl acc) segs = Inr q" by simp
      from Cons.IH[OF t this] True Cons.prems(1) show ?thesis by (cases acc) auto
    next
      case nd: False
      from nd Cons.prems(1) have a: "''..'' \<notin> set (seg # acc)" by simp
      show ?thesis
      proof (cases "segs = []")
        case True
        with False nd Cons.prems(2) show ?thesis by (simp add: abs_path_def)
      next
        case ne: False
        with False nd Cons.prems(2) have "walk w p (seg # acc) segs = Inr q"
          by (simp split: option.splits node.splits)
        from Cons.IH[OF a this] False nd show ?thesis by simp
      qed
    qed
  qed
qed

lemma normalizeString_trailing:
  "normalizeString a [] (split_on (CHR ''/'') (s @ ''/'')) = normalizeString a [] (split_on (CHR ''/'') s)"
proof -
  have "split_on (CHR ''/'') (s @ CHR ''/'' # []) = split_on (CHR ''/'') s @ [[]]"
    using split_on_append[of "CHR ''/''" s "[]"] by simp
  then show ?thesis by (simp add: normalizeString_append)
qed

lemma namei_resolve: "namei p w = Inr q \<Longrightarrow> q = resolve (cwd w) p"
proof -
  assume a: "namei p w = Inr q"
  then have ne: "p \<noteq> []" by (auto simp: namei_def)
  show ?thesis
  proof (cases "is_absolute p")
    case True
    with a ne have "walk w p [] (split_on (CHR ''/'') p) = Inr q" by (simp add: namei_def)
    from walk_normalize[OF _ this] resolve_absolute[OF True, of "cwd w"] show ?thesis
      by (simp add: normalizeString_trailing)
  next
    case False
    with a ne have wd: "is_absolute (cwd w)" by (auto simp: namei_def split: if_splits)
    with a ne False have "walk w p [] (split_on (CHR ''/'') (cwd w @ ''/'' @ p)) = Inr q"
      by (simp add: namei_def)
    from walk_normalize[OF _ this] resolve_relative[OF wd False ne]
      normalizeString_trailing[of False "cwd w @ ''/'' @ p"]
    show ?thesis by simp
  qed
qed

lemma walk_mono:
  "(\<And>d. lookup w d = Some Dir \<Longrightarrow> lookup w' d = Some Dir) \<Longrightarrow> walk w p acc segs = Inr q
   \<Longrightarrow> walk w' p acc segs = Inr q"
proof (induction segs arbitrary: acc)
  case Nil
  then show ?case by simp
next
  case (Cons seg segs)
  show ?case
  proof (cases "seg = [] \<or> seg = ''.'' \<or> seg = ''..'' \<or> segs = []")
    case True
    with Cons show ?thesis by auto
  next
    case False
    with Cons.prems(2) have d: "lookup w (''/'' @ join_with ''/'' (rev (seg # acc))) = Some Dir"
      and r: "walk w p (seg # acc) segs = Inr q"
      by (auto split: option.splits node.splits)
    from Cons.prems(1)[OF d] Cons.IH[OF Cons.prems(1) r] False show ?thesis by simp
  qed
qed

lemma namei_mono:
  assumes "\<And>d. lookup w d = Some Dir \<Longrightarrow> lookup w' d = Some Dir" and "cwd w' = cwd w"
    and "namei p w = Inr q"
  shows "namei p w' = Inr q"
  using assms(3) walk_mono[of w w', OF assms(1)] assms(2)
  by (auto simp: namei_def split: if_splits)

text \<open>What a successful call of each file system operation has done.\<close>

lemma create_file_Inr:
  assumes "create_file q c w = (Inr u, w')"
  shows "w' = written q c w \<and> lookup w (dirname q) = Some Dir"
  using assms by (auto simp: create_file_def put_file_written split: option.splits node.splits)

lemma copyFileSync_Inr:
  assumes "copyFileSync src dest w = (Inr u, w')"
  shows "\<exists>c m. lookup w (resolve (cwd w) src) = Some (File c m)
           \<and> (if resolve (cwd w) src = resolve (cwd w) dest then w' = w
               else w' = written (resolve (cwd w) dest) c w \<and> lookup w (resolve (cwd w) dest) \<noteq> Some Dir)"
proof -
  from assms obtain s where s: "namei src w = Inr s"
    by (cases "namei src w") (auto simp: copyFileSync_def)
  from assms s obtain c m where c: "lookup w s = Some (File c m)"
    by (auto simp: copyFileSync_def split: option.splits node.splits)
  from assms s c obtain d where d: "namei dest w = Inr d"
    by (cases "namei dest w") (auto simp: copyFileSync_def)
  from assms s c d have "if s = d then w' = w else w' = written d c w \<and> lookup w d \<noteq> Some Dir"
    by (auto simp: copyFileSync_def put_file_written split: option.splits node.splits if_splits
        dest!: create_file_Inr)
  with c namei_resolve[OF s] namei_resolve[OF d] show ?thesis by auto
qed

lemma copyFileSync_namei:
  assumes "copyFileSync src dest w = (Inr u, w')"
  shows "namei src w = Inr (resolve (cwd w) src) \<and> namei dest w = Inr (resolve (cwd w) dest)"
proof -
  from assms obtain s where s: "namei src w = Inr s"
    by (cases "namei src w") (auto simp: copyFileSync_def)
  from assms s obtain c m where c: "lookup w s = Some (File c m)"
    by (auto simp: copyFileSync_def split: option.splits node.splits)
  from assms s c obtain d where d: "namei dest w = Inr d"
    by (cases "namei dest w") (auto simp: copyFileSync_def)
  from s d namei_resolve[OF s] namei_resolve[OF d] show ?thesis by simp
qed

lemma appendFileSync_Inr:
  assumes "appendFileSync p d w = (Inr u, w')"
  shows "\<exists>old. (lookup w (resolve (cwd w) p) = None \<and> old = []
                 \<or> (\<exists>m. lookup w (resolve (cwd w) p) = Some (File old m)))
           \<and> w' = written (resolve (cwd w) p) (old @ d) w"
  using assms
  by (auto simp: appendFileSync_def Let_def put_file_written
      split: option.splits node.splits dest!: create_file_Inr)

lemma readFileSync_Inr:
  assumes "readFileSync p w = (Inr c, w')"
  shows "w' = w \<and> (\<exists>m. lookup w (resolve (cwd w) p) = Some (File c m))"
  using assms by (auto simp: readFileSync_def Let_def split: option.splits node.splits)

lemma mkdir_p_keeps:
  "mkdir_p al pre segs = Inr al' \<Longrightarrow> map_of al q \<noteq> None \<Longrightarrow> map_of al' q = map_of al q"
proof (induction al pre segs arbitrary: al' rule: mkdir_p.induct)
  case (1 al pre)
  then show ?case by simp
next
  case (2 al pre seg segs)
  show ?case
  proof (cases "map_of al (pre @ ''/'' @ seg)")
    case None
    with 2 have "map_of al' q = map_of (AList.update (pre @ ''/'' @ seg) Dir al) q"
      by (auto simp: Let_def update_conv')
    with None 2(4) show ?thesis by (auto simp: update_conv')
  next
    case (Some n)
    with 2 show ?thesis by (cases n) (auto simp: Let_def)
  qed
qed

lemma mkdirSync_Inr:
  assumes "mkdirSync p w = (Inr u, w')"
  shows "same_env w w' \<and> ticks w' = ticks w \<and> (\<forall>q. lookup w q \<noteq> None \<longrightarrow> lookup w' q = lookup w q)"
proof -
  from assms obtain al where
    al: "mkdir_p (fs w) [] (normalizeString False [] (split_on (CHR ''/'') (resolve (cwd w) p))) = Inr al"
    and w': "w' = w\<lparr>fs := al\<rparr>"
    by (auto simp: mkdirSync_def Let_def split: sum.splits)
  have "lookup w' q = lookup w q" if "lookup w q \<noteq> None" for q
    using that mkdir_p_keeps[OF al, of q] w' by (auto simp: lookup_def)
  with w' show ?thesis by simp
qed

lemma ensureBackupDir_Inr:
  assumes "ensureBackupDir w = (Inr u, w')"
  shows "same_env w w' \<and> ticks w' = ticks w \<and> (\<forall>q. lookup w q \<noteq> None \<longrightarrow> lookup w' q = lookup w q)"
  using assms mkdirSync_Inr[of "BACKUP_DIR w" w u w']
  by (auto simp: ensureBackupDir_def split: if_splits)

lemma LOG_ticks [simp]: "LOG (w\<lparr>ticks := n\<rparr>) = LOG w"
  by (simp add: LOG_def logPath_def BACKUP_DIR_def ROOT_DIR_def)

lemma LOG_same_env: "same_env w w' \<Longrightarrow> LOG w' = LOG w"
  using same_env_paths[of w w'] by (simp add: LOG_def)

lemma logPath_ticks [simp]: "logPath (w\<lparr>ticks := n\<rparr>) = logPath w"
  by (simp add: logPath_def BACKUP_DIR_def ROOT_DIR_def)

lemma recordOperation_Inr:
  assumes "recordOperation r w = (Inr u, w')"
  shows "\<exists>old. (lookup w (LOG w) = None \<and> old = [] \<or> (\<exists>m. lookup w (LOG w) = Some (File old m)))
           \<and> w' = written (LOG w) (old @ old @ log_line r (iso (clock w (ticks w))))
                    (w\<lparr>ticks := Suc (ticks w)\<rparr>)"
proof -
  let ?w1 = "w\<lparr>ticks := Suc (ticks w)\<rparr>"
  let ?line = "log_line r (iso (clock w (ticks w)))"
  show ?thesis
  proof (cases "existsSync (logPath w) w")
    case True
    with assms obtain existing where
      rd: "readFileSync (logPath w) ?w1 = (Inr existing, ?w1)" and
      ap: "appendFileSync (logPath w) (existing @ ?line) ?w1 = (Inr u, w')"
      by (auto simp: recordOperation_def bindE_def new_Date_def Let_def log_line_def
          split: sum.splits prod.splits dest: readFileSync_Inr)
    from readFileSync_Inr[OF rd] obtain m where m: "lookup w (LOG w) = Some (File existing m)"
      by (auto simp: LOG_def)
    from appendFileSync_Inr[OF ap] m have "w' = written (LOG w) (existing @ existing @ ?line) ?w1"
      by (auto simp: LOG_def)
    with m show ?thesis by blast
  next
    case False
    with assms have ap: "appendFileSync (logPath w) ([] @ ?line) ?w1 = (Inr u, w')"
      by (auto simp: recordOperation_def bindE_def new_Date_def Let_def log_line_def)
    from False have n: "lookup w (LOG w) = None"
      by (simp add: existsSync_def LOG_def)
    from appendFileSync_Inr[OF ap] n have "w' = written (LOG w) ([] @ [] @ ?line) ?w1"
      by (auto simp: LOG_def)
    with n show ?thesis by blast
  qed
qed

lemma rollback_Inr:
  assumes "rollback b t w = (Inr target, w')"
  shows "target = resolvedTarget (cwd w) b t
    \<and> (\<exists>c m w1. lookup w (resolve (cwd w) b) = Some (File c m)
          \<and> (if resolve (cwd w) b = resolve (cwd w) target then w1 = w
              else w1 = written (resolve (cwd w) target) c w
                   \<and> lookup w (resolve (cwd w) target) \<noteq> Some Dir)
          \<and> recordOperation \<lparr>timestamp = iso (clock w1 (ticks w1)), originalPath = target,
                 backupPath = b, operation = ''rollback'', comment' = None\<rparr>
               (w1\<lparr>ticks := Suc (ticks w1)\<rparr>) = (Inr (), w'))"
proof -
  let ?target = "resolvedTarget (cwd w) b t"
  from assms have ex: "existsSync b w"
    by (auto simp: rollback_def split: if_splits)
  with assms obtain w1 where
    cp: "copyFileSync b ?target w = (Inr (), w1)" and
    rec: "recordOperation \<lparr>timestamp = iso (clock w1 (ticks w1)), originalPath = ?target,
                 backupPath = b, operation = ''rollback'', comment' = None\<rparr>
               (w1\<lparr>ticks := Suc (ticks w1)\<rparr>) = (Inr (), w')" and
    tg: "target = ?target"
    by (auto simp: rollback_def bindE_def new_Date_def returnE_def Let_def
        split: sum.splits prod.splits)
  from copyFileSync_Inr[OF cp] obtain c m where
    cm: "lookup w (resolve (cwd w) b) = Some (File c m)" and
    st: "if resolve (cwd w) b = resolve (cwd w) ?target then w1 = w
         else w1 = written (resolve (cwd w) ?target) c w \<and> lookup w (resolve (cwd w) ?target) \<noteq> Some Dir"
    by blast
  show ?thesis
    unfolding tg using cm st rec by (intro conjI refl exI[of _ c] exI[of _ m] exI[of _ w1])
qed

lemma exec_rm_only_deletes:
  assumes "exec_rm f w = (r, w')"
  shows "same_env w w' \<and> ticks w' = ticks w \<and> (\<forall>q. lookup w' q = lookup w q \<or> lookup w' q = None)"
  using assms
  by (auto simp: exec_rm_def Let_def lookup_def delete_conv' split: if_splits option.splits node.splits)

lemma forEach_rm_only_deletes:
  "forEach exec_rm fs' w = (r, w') \<Longrightarrow>
   same_env w w' \<and> ticks w' = ticks w \<and> (\<forall>q. lookup w' q = lookup w q \<or> lookup w' q = None)"
proof (induction fs' arbitrary: w)
  case Nil
  then show ?case by simp
next
  case (Cons f fs')
  obtain r1 w1 where s: "exec_rm f w = (r1, w1)" by (cases "exec_rm f w")
  note a = exec_rm_only_deletes[OF s]
  show ?case
  proof (cases r1)
    case (Inl e)
    with Cons.prems s have "w' = w1" by simp
    with a show ?thesis by simp
  next
    case (Inr u)
    with Cons.prems s have "forEach exec_rm fs' w1 = (r, w')" by simp
    from Cons.IH[OF this] a show ?thesis
      by (metis same_env_trans)
  qed
qed

lemma exec_ls_world: "exec_ls stem w = (r, w') \<Longrightarrow> w' = w"
  by (auto simp: exec_ls_def Let_def split: if_splits)

lemma cleanOldBackups_only_deletes:
  assumes "cleanOldBackups p k w = (r, w')"
  shows "same_env w w' \<and> ticks w' = ticks w \<and> (\<forall>q. lookup w' q = lookup w q \<or> lookup w' q = None)"
proof -
  obtain r1 w1 where s: "exec_ls (last (split_on (CHR ''/'') p)) w = (r1, w1)"
    by (cases "exec_ls (last (split_on (CHR ''/'') p)) w")
  then have w1: "w1 = w" by (rule exec_ls_world)
  show ?thesis
  proof (cases r1)
    case (Inl e)
    with assms s w1 show ?thesis by (simp add: cleanOldBackups_def bindE_def)
  next
    case (Inr out)
    with assms s w1 show ?thesis
      using forEach_rm_only_deletes[of _ w r w']
      by (auto simp: cleanOldBackups_def bindE_def returnE_def Let_def split: if_splits)
  qed
qed

lemma backupFile_Inr:
  assumes "backupFile f options w = (Inr bp, w')"
  shows "getBackupPath (resolve (cwd w) f) w = (Inr bp, w\<lparr>ticks := Suc (ticks w)\<rparr>)
    \<and> (\<exists>wa c m wb w5.
          same_env w wa \<and> ticks wa = Suc (ticks w)
          \<and> (\<forall>q. lookup w q \<noteq> None \<longrightarrow> lookup wa q = lookup w q)
          \<and> lookup w (resolve (cwd w) (resolve (cwd w) f)) \<noteq> None
          \<and> lookup wa (resolve (cwd w) (resolve (cwd w) f)) = Some (File c m)
          \<and> (if resolve (cwd w) (resolve (cwd w) f) = resolve (cwd w) bp then wb = wa
              else wb = written (resolve (cwd w) bp) c wa
                   \<and> lookup wa (resolve (cwd w) bp) \<noteq> Some Dir)
          \<and> recordOperation \<lparr>timestamp = iso (clock wb (ticks wb)),
                 originalPath = resolve (cwd w) f, backupPath = bp, operation = ''backup'',
                 comment' = comment options\<rparr> (wb\<lparr>ticks := Suc (ticks wb)\<rparr>) = (Inr (), w5)
          \<and> (case maxBackups options of
                Some k \<Rightarrow> if k \<noteq> 0 then cleanOldBackups (resolve (cwd w) f) k w5 = (Inr (), w') else w' = w5
              | None \<Rightarrow> w' = w5)
          \<and> namei bp wa = Inr (resolve (cwd w) bp))"
proof -
  let ?rf = "resolve (cwd w) f"
  let ?w0 = "w\<lparr>ticks := Suc (ticks w)\<rparr>"
  obtain p where gp: "getBackupPath ?rf w = (Inr p, ?w0)"
    using getBackupPath_eq[of ?rf w] by blast
  let ?rest = "\<lambda>w. bindE ensureBackupDir (\<lambda>u.
             bindE (copyFileSync ?rf p) (\<lambda>u.
             bindE new_Date (\<lambda>d.
             bindE (recordOperation
                      \<lparr>timestamp = iso d, originalPath = ?rf, backupPath = p,
                       operation = ''backup'', comment' = comment options\<rparr>) (\<lambda>u.
             bindE (case maxBackups options of
                      Some k \<Rightarrow> if k \<noteq> 0 then cleanOldBackups ?rf k else returnE ()
                    | None \<Rightarrow> returnE ()) (\<lambda>u.
             returnE p))))) w"
  have unfold: "backupFile f options w =
      (if \<not> existsSync ?rf ?w0 then (Inl (Error (''File not found: '' @ ?rf)), ?w0) else ?rest ?w0)"
    using gp by (simp add: backupFile_def bindE_def Let_def)
  with assms have ex: "existsSync ?rf ?w0" and run: "?rest ?w0 = (Inr bp, w')"
    by (auto split: if_splits)
  from run obtain wa where en: "ensureBackupDir ?w0 = (Inr (), wa)"
    by (auto simp: bindE_def split: sum.splits prod.splits)
  with run obtain wb where cp: "copyFileSync ?rf p wa = (Inr (), wb)"
    by (auto simp: bindE_def split: sum.splits prod.splits)
  let ?r = "\<lparr>timestamp = iso (clock wb (ticks wb)), originalPath = ?rf, backupPath = p,
             operation = ''backup'', comment' = comment options\<rparr>"
  from run en cp obtain w5 where rec: "recordOperation ?r (wb\<lparr>ticks := Suc (ticks wb)\<rparr>) = (Inr (), w5)"
    by (auto simp: bindE_def new_Date_def split: sum.splits prod.splits)
  from run en cp rec have fin:
    "bindE (case maxBackups options of
              Some k \<Rightarrow> if k \<noteq> 0 then cleanOldBackups ?rf k else returnE ()
            | None \<Rightarrow> returnE ()) (\<lambda>u. returnE p) w5 = (Inr bp, w')"
    by (simp add: bindE_def new_Date_def)
  then have bp: "bp = p"
    by (auto simp: bindE_def returnE_def split: sum.splits prod.splits)
  from fin have prune: "case maxBackups options of
                Some k \<Rightarrow> if k \<noteq> 0 then cleanOldBackups ?rf k w5 = (Inr (), w') else w' = w5
              | None \<Rightarrow> w' = w5"
    by (auto simp: bindE_def returnE_def split: sum.splits prod.splits option.splits if_splits)
  note e = ensureBackupDir_Inr[OF en]
  from e have env: "same_env w wa" and tk: "ticks wa = Suc (ticks w)"
    and keep: "\<forall>q. lookup w q \<noteq> None \<longrightarrow> lookup wa q = lookup w q"
    by (simp_all add: same_env_def)
  from env have cwd: "cwd wa = cwd w" by (simp add: same_env_def)
  from copyFileSync_Inr[OF cp, unfolded cwd] obtain c m where
    cm: "lookup wa (resolve (cwd w) ?rf) = Some (File c m)" and
    st: "if resolve (cwd w) ?rf = resolve (cwd w) p then wb = wa
         else wb = written (resolve (cwd w) p) c wa \<and> lookup wa (resolve (cwd w) p) \<noteq> Some Dir"
    by blast
  from ex have ex': "lookup w (resolve (cwd w) ?rf) \<noteq> None"
    by (simp add: existsSync_def)
  from copyFileSync_namei[OF cp, unfolded cwd] have nm: "namei p wa = Inr (resolve (cwd w) p)"
    by simp
  show ?thesis
    unfolding bp using gp env tk keep ex' cm st rec prune nm
    by (intro conjI exI[of _ wa] exI[of _ c] exI[of _ m] exI[of _ wb] exI[of _ w5])
qed

lemma lookup_fs_update:
  "q \<noteq> ''/'' \<Longrightarrow>
   lookup (w\<lparr>fs := AList.update q n (fs w)\<rparr>) q' = (if q' = q then Some n else lookup w q')"
  by (auto simp: lookup_def update_conv')

lemma recordOperation_File:
  assumes "lookup w (LOG w) = Some (File old m)"
  shows "recordOperation r w
         = (Inr (), written (LOG w) (old @ old @ log_line r (iso (clock w (ticks w))))
                      (w\<lparr>ticks := Suc (ticks w)\<rparr>))"
  using assms
  by (simp add: recordOperation_def bindE_def new_Date_def Let_def log_line_def existsSync_def
      readFileSync_def appendFileSync_def put_file_written LOG_def)

lemma copyFileSync_over_file:
  assumes "namei src w = Inr s" and "namei dest w = Inr d"
    and "lookup w s = Some (File c m)"
    and "lookup w d = Some (File c' m')"
    and "s \<noteq> d"
  shows "copyFileSync src dest w = (Inr (), written d c w)"
  using assms by (simp add: copyFileSync_def put_file_written)

text \<open>The name of an artifact.\<close>

lemma match_template_length: "match_template t s \<Longrightarrow> length s = length t"
  by (induction t s rule: match_template.induct) auto

lemma is_digit_not_slash: "is_digit c \<Longrightarrow> c \<noteq> CHR ''/''"
  by (auto simp: is_digit_def)

lemma match_template_no_slash:
  "match_template t s \<Longrightarrow> CHR ''/'' \<notin> set t \<Longrightarrow> CHR ''/'' \<notin> set s"
proof (induction t s rule: match_template.induct)
  case 1
  then show ?case by simp
next
  case (2 p ps c cs)
  then have "c \<noteq> CHR ''/''"
    using is_digit_not_slash[of c] by (cases "p = CHR ''d''") auto
  with 2 show ?case by simp
qed simp_all

lemma stamp_no_slash: "iso_shaped i \<Longrightarrow> CHR ''/'' \<notin> set (stamp i)"
proof -
  assume "iso_shaped i"
  then have "CHR ''/'' \<notin> set i"
    unfolding iso_shaped_def by (rule match_template_no_slash) simp
  then have "CHR ''/'' \<notin> set (map (\<lambda>c. if c = CHR '':'' \<or> c = CHR ''.'' then CHR ''-'' else c) i)"
    by auto
  then show ?thesis
    unfolding stamp_def by (blast dest: in_set_takeD)
qed

lemma artifact_name_ok:
  assumes "CHR ''/'' \<notin> set base" "CHR ''/'' \<notin> set ts"
  shows "seg_ok (base @ ''.'' @ ts @ ''.bak'')"
proof -
  let ?x = "base @ ''.'' @ ts @ ''.bak''"
  have len: "4 \<le> length ?x" by simp
  have d1: "?x \<noteq> ''.''"
  proof
    assume "?x = ''.''"
    then have "length ?x = length ''.''" by (rule arg_cong)
    with len show False by simp
  qed
  have d2: "?x \<noteq> ''..''"
  proof
    assume "?x = ''..''"
    then have "length ?x = length ''..''" by (rule arg_cong)
    with len show False by simp
  qed
  have "?x \<noteq> []" by simp
  with d1 d2 assms show ?thesis by (simp add: seg_ok_def)
qed

lemma basename_no_slash: "CHR ''/'' \<notin> set (basename p)"
proof
  assume "CHR ''/'' \<in> set (basename p)"
  then have "CHR ''/'' \<in> set (takeWhile (\<lambda>c. c \<noteq> CHR ''/'') (dropWhile (\<lambda>c. c = CHR ''/'') (rev p)))"
    by (simp add: basename_def)
  from set_takeWhileD[OF this] show False by simp
qed

lemma getBackupPath_stamp:
  "getBackupPath p w
   = (Inr (join [BACKUP_DIR w, basename p @ ''.'' @ stamp (iso (clock w (ticks w))) @ ''.bak'']),
      w\<lparr>ticks := Suc (ticks w)\<rparr>)"
  by (simp add: getBackupPath_eq stamp_def)

text \<open>The artifact path of a backup, under a script directory that is absolute and a clock
  that reads a date of four-digit year.\<close>

lemma artifact_path:
  assumes sd: "is_absolute (scriptDir w)" and iso: "iso_shaped (iso (clock w (ticks w)))"
    and gp: "getBackupPath p w = (Inr bp, w0)"
  shows "\<exists>segs. list_all seg_ok segs \<and> segs \<noteq> [] \<and> BACKUP_DIR w = abs_path segs
           \<and> logPath w = abs_path (segs @ [''operations.jsonl''])
           \<and> seg_ok (basename p @ ''.'' @ stamp (iso (clock w (ticks w))) @ ''.bak'')
           \<and> bp = abs_path (segs @ [basename p @ ''.'' @ stamp (iso (clock w (ticks w))) @ ''.bak''])"
proof -
  let ?name = "basename p @ ''.'' @ stamp (iso (clock w (ticks w))) @ ''.bak''"
  from logPath_abs_path[OF sd] obtain segs where
    segs: "list_all seg_ok segs" "segs \<noteq> []" "BACKUP_DIR w = abs_path segs"
      "logPath w = abs_path (segs @ [''operations.jsonl''])" by blast
  have ok: "seg_ok ?name"
    using artifact_name_ok[OF basename_no_slash stamp_no_slash[OF iso]] .
  from gp have "bp = join [BACKUP_DIR w, ?name]"
    by (simp add: getBackupPath_stamp)
  with segs(3) have "bp = abs_path (segs @ [?name])"
    using join_abs_path_seg[OF segs(1) ok] by simp
  with segs ok show ?thesis by blast
qed

lemma abs_path_snoc_inject:
  assumes "seg_ok x" "seg_ok y" "abs_path (segs @ [x]) = abs_path (segs' @ [y])"
  shows "x = y"
  using assms basename_abs_path_snoc[of x segs] basename_abs_path_snoc[of y segs'] by simp

lemma abs_path_snoc_not_root: "seg_ok x \<Longrightarrow> abs_path (segs @ [x]) \<noteq> ''/''"
proof
  assume "seg_ok x" and e: "abs_path (segs @ [x]) = ''/''"
  then have "2 \<le> length (abs_path (segs @ [x]))"
    using length_abs_path_snoc[of x segs] by (simp add: seg_ok_def)
  then show False unfolding e by simp
qed

lemma read_file_Some: "read_file w q = Some c \<longleftrightarrow> (\<exists>m. lookup w q = Some (File c m))"
  by (auto simp: read_file_def split: option.splits node.splits)

lemma LOG_abs:
  assumes "logPath w = abs_path (segs @ [x])" "list_all seg_ok segs" "seg_ok x"
  shows "LOG w = logPath w"
proof -
  from assms(2,3) have "list_all seg_ok (segs @ [x])" by simp
  from resolve_abs_path[OF this, of "cwd w"] assms(1) show ?thesis by (simp add: LOG_def)
qed

text \<open>What a backup with no pruning leaves, in terms of what can be looked up.\<close>

lemma backupFile_leaves:
  assumes wd: "is_absolute (cwd w)" and sd: "is_absolute (scriptDir w)"
    and iso: "iso_shaped (iso (clock w (ticks w)))"
    and src0: "lookup w (resolve (cwd w) f) = Some (File C m)"
    and notlog: "resolve (cwd w) f \<noteq> LOG w"
    and opts: "maxBackups options = None"
    and bk: "backupFile f options w = (Inr bp, w1)"
  shows "same_env w w1 \<and> resolve (cwd w) bp = bp \<and> bp \<noteq> resolve (cwd w) f \<and> bp \<noteq> LOG w
    \<and> LOG w \<noteq> ''/''
    \<and> lookup w1 (resolve (cwd w) f) = Some (File C m)
    \<and> (\<exists>t. lookup w1 bp = Some (File C t))
    \<and> (\<exists>l t. lookup w1 (LOG w) = Some (File l t))
    \<and> (\<forall>d. lookup w d = Some Dir \<longrightarrow> lookup w1 d = Some Dir)
    \<and> namei bp w1 = Inr bp"
proof -
  let ?rf = "resolve (cwd w) f"
  have rr: "resolve (cwd w) ?rf = ?rf" using wd by (rule resolve_idem)
  from backupFile_Inr[OF bk] obtain wa c m0 wb w5 where
    gp: "getBackupPath ?rf w = (Inr bp, w\<lparr>ticks := Suc (ticks w)\<rparr>)" and
    env_a: "same_env w wa" and
    keep: "\<forall>q. lookup w q \<noteq> None \<longrightarrow> lookup wa q = lookup w q" and
    src: "lookup wa (resolve (cwd w) ?rf) = Some (File c m0)" and
    cp: "if resolve (cwd w) ?rf = resolve (cwd w) bp then wb = wa
         else wb = written (resolve (cwd w) bp) c wa \<and> lookup wa (resolve (cwd w) bp) \<noteq> Some Dir" and
    rec: "recordOperation \<lparr>timestamp = iso (clock wb (ticks wb)), originalPath = ?rf,
            backupPath = bp, operation = ''backup'', comment' = comment options\<rparr>
            (wb\<lparr>ticks := Suc (ticks wb)\<rparr>) = (Inr (), w5)" and
    fin: "case maxBackups options of
            Some k \<Rightarrow> if k \<noteq> 0 then cleanOldBackups ?rf k w5 = (Inr (), w1) else w1 = w5
          | None \<Rightarrow> w1 = w5" and
    nm: "namei bp wa = Inr (resolve (cwd w) bp)"
    by blast
  let ?name = "basename ?rf @ ''.'' @ stamp (iso (clock w (ticks w))) @ ''.bak''"
  from artifact_path[OF sd iso gp] obtain segs where
    segs: "list_all seg_ok segs" "segs \<noteq> []" and
    lp: "logPath w = abs_path (segs @ [''operations.jsonl''])" and
    ok: "seg_ok ?name" and bp: "bp = abs_path (segs @ [?name])"
    by blast
  have ops: "seg_ok ''operations.jsonl''" by (simp add: seg_ok_def)
  have rbp: "resolve (cwd w) bp = bp"
    unfolding bp using segs(1) ok by (intro resolve_abs_path) simp
  have log: "LOG w = logPath w" using LOG_abs[OF lp segs(1) ops] .
  have bp_rf: "bp \<noteq> ?rf"
  proof
    assume "bp = ?rf"
    then have "basename bp = basename ?rf" by simp
    moreover have "basename bp = ?name" unfolding bp using ok by (rule basename_abs_path_snoc)
    ultimately have "length ?name = length (basename ?rf)" by simp
    then show False by simp
  qed
  have bp_log: "bp \<noteq> LOG w"
  proof
    assume "bp = LOG w"
    with log lp bp have "abs_path (segs @ [?name]) = abs_path (segs @ [''operations.jsonl''])" by simp
    from abs_path_snoc_inject[OF ok ops this] have "?name = ''operations.jsonl''" .
    then have "last ?name = last ''operations.jsonl''" by (rule arg_cong)
    then show False by simp
  qed
  have bp_root: "bp \<noteq> ''/''" unfolding bp using ok by (rule abs_path_snoc_not_root)
  have log_root: "LOG w \<noteq> ''/''" unfolding log lp using ops by (rule abs_path_snoc_not_root)
  from keep src0 have fa: "lookup wa ?rf = Some (File C m)" by simp
  with src rr have c: "c = C" by simp
  from cp rr rbp bp_rf have wb: "wb = written bp c wa" by (simp split: if_splits)
  have env_b: "same_env w wb" unfolding wb using env_a written_env same_env_trans by blast
  let ?wb' = "wb\<lparr>ticks := Suc (ticks wb)\<rparr>"
  have logb: "LOG ?wb' = LOG w" using LOG_same_env[OF env_b] by simp
  from recordOperation_Inr[OF rec] logb obtain l where
    w5: "w5 = written (LOG w) l (?wb'\<lparr>ticks := Suc (ticks ?wb')\<rparr>)"
    by auto
  from recordOperation_Inr[OF rec] logb have nd_log': "lookup ?wb' (LOG w) \<noteq> Some Dir" by auto
  from cp rr rbp bp_rf have nd_bp: "lookup wa bp \<noteq> Some Dir" by (simp split: if_splits)
  from fin opts have w1: "w1 = w5" by simp
  have lk: "lookup w1 q = (if q = LOG w then Some (File l (millis (clock ?wb' (Suc (ticks ?wb')))))
                           else if q = bp then Some (File c (millis (clock wa (ticks wa))))
                           else lookup wa q)" for q
    unfolding w1 w5 wb using log_root bp_root by (simp add: lookup_written)
  have env1: "same_env w w1"
    unfolding w1 w5 using env_b written_env[of "?wb'\<lparr>ticks := Suc (ticks ?wb')\<rparr>" "LOG w" l]
    by (auto simp: same_env_def)
  have dirs_a: "lookup w1 d = Some Dir" if "lookup wa d = Some Dir" for d
  proof -
    from nd_log' have "lookup wa (LOG w) \<noteq> Some Dir"
      unfolding wb using bp_root bp_log by (simp add: lookup_written)
    with that nd_bp have "d \<noteq> LOG w" "d \<noteq> bp" by auto
    with that lk[of d] show ?thesis by simp
  qed
  have "lookup w1 ?rf = Some (File C m)" using lk[of ?rf] notlog bp_rf fa by simp
  moreover have "\<exists>t. lookup w1 bp = Some (File C t)" using lk[of bp] bp_log c by simp
  moreover have "\<exists>l t. lookup w1 (LOG w) = Some (File l t)" using lk[of "LOG w"] by simp
  moreover have "\<forall>d. lookup w d = Some Dir \<longrightarrow> lookup w1 d = Some Dir"
    using keep dirs_a by auto
  moreover have "namei bp w1 = Inr bp"
  proof (rule namei_mono[of wa w1])
    show "lookup w1 d = Some Dir" if "lookup wa d = Some Dir" for d using that by (rule dirs_a)
    show "cwd w1 = cwd wa" using env1 env_a by (simp add: same_env_def)
    show "namei bp wa = Inr bp" using nm rbp by simp
  qed
  ultimately show ?thesis using env1 rbp bp_rf bp_log log_root by blast
qed

lemma rollback_to_target:
  assumes env: "same_env w w2"
    and art: "lookup w2 bp = Some (File C t)" and rbp: "resolve (cwd w) bp = bp"
    and tgt: "lookup w2 (resolve (cwd w) f) = Some (File C' m')"
    and ne: "f \<noteq> []" and bp_rf: "bp \<noteq> resolve (cwd w) f"
    and notlog: "resolve (cwd w) f \<noteq> LOG w" and log_root: "LOG w \<noteq> ''/''"
    and log: "lookup w2 (LOG w) = Some (File l tm)"
    and nb: "namei bp w2 = Inr bp" and nf: "namei f w2 = Inr (resolve (cwd w) f)"
  shows "\<exists>w3. rollback bp (Some f) w2 = (Inr f, w3)
           \<and> lookup w3 (resolve (cwd w) f) = Some (File C (millis (clock w2 (ticks w2))))
           \<and> (bp \<noteq> LOG w \<longrightarrow> lookup w3 bp = Some (File C t))"
proof -
  let ?rf = "resolve (cwd w) f"
  from env have cw: "cwd w2 = cwd w" by (simp add: same_env_def)
  have rf_root: "?rf \<noteq> ''/''" using tgt lookup_not_root[of w2 ?rf] by simp
  have ex: "existsSync bp w2" using art rbp cw by (simp add: existsSync_def)
  have tg: "resolvedTarget (cwd w2) bp (Some f) = f" using ne by (simp add: resolvedTarget_def)
  let ?wa = "written ?rf C w2"
  have cp: "copyFileSync bp f w2 = (Inr (), ?wa)"
    using copyFileSync_over_file[OF nb nf art tgt bp_rf] by simp
  let ?wb = "?wa\<lparr>ticks := Suc (ticks ?wa)\<rparr>"
  have env_b: "same_env w ?wb"
    using env written_env[of w2 ?rf C] by (auto simp: same_env_def)
  have logb: "LOG ?wb = LOG w" using LOG_same_env[OF env_b] .
  have lkb: "lookup ?wb (LOG ?wb) = Some (File l tm)"
    unfolding logb using rf_root notlog log by (simp add: lookup_written)
  let ?r = "\<lparr>timestamp = iso (clock ?wa (ticks ?wa)), originalPath = f, backupPath = bp,
             operation = ''rollback'', comment' = None\<rparr>"
  let ?w3 = "written (LOG w) (l @ l @ log_line ?r (iso (clock ?wb (ticks ?wb))))
               (?wb\<lparr>ticks := Suc (ticks ?wb)\<rparr>)"
  have rec: "recordOperation ?r ?wb = (Inr (), ?w3)"
    using recordOperation_File[OF lkb, of ?r] logb by simp
  have run: "rollback bp (Some f) w2 = (Inr f, ?w3)"
    using ex tg cp rec by (simp add: rollback_def bindE_def new_Date_def returnE_def Let_def)
  have l1: "lookup ?w3 ?rf = Some (File C (millis (clock w2 (ticks w2))))"
    using log_root rf_root notlog by (simp add: lookup_written)
  have l2: "bp \<noteq> LOG w \<longrightarrow> lookup ?w3 bp = Some (File C t)"
    using log_root rf_root bp_rf art by (simp add: lookup_written)
  from run l1 l2 show ?thesis by blast
qed

lemma recordOperation_env:
  "recordOperation r w = (Inr u, w') \<Longrightarrow> same_env w w' \<and> ticks w' = ticks w + 2"
  using recordOperation_Inr[of r w u w'] by (auto simp: same_env_def written_def)

lemma backupFile_env:
  assumes "backupFile f options w = (Inr bp, w')"
  shows "same_env w w'"
proof -
  from backupFile_Inr[OF assms] obtain wa c m wb w5 where
    a: "same_env w wa" and
    cp: "if resolve (cwd w) (resolve (cwd w) f) = resolve (cwd w) bp then wb = wa
         else wb = written (resolve (cwd w) bp) c wa \<and> lookup wa (resolve (cwd w) bp) \<noteq> Some Dir" and
    r: "recordOperation \<lparr>timestamp = iso (clock wb (ticks wb)), originalPath = resolve (cwd w) f,
            backupPath = bp, operation = ''backup'', comment' = comment options\<rparr>
            (wb\<lparr>ticks := Suc (ticks wb)\<rparr>) = (Inr (), w5)" and
    fin: "case maxBackups options of
            Some k \<Rightarrow> if k \<noteq> 0 then cleanOldBackups (resolve (cwd w) f) k w5 = (Inr (), w') else w' = w5
          | None \<Rightarrow> w' = w5"
    by blast
  from cp have "wb = wa \<or> wb = written (resolve (cwd w) bp) c wa" by (simp split: if_splits)
  with a have "same_env w wb" by (auto simp: same_env_def written_def)
  with recordOperation_env[OF r] have e5: "same_env w w5" by (auto simp: same_env_def)
  from fin have "w' = w5 \<or> (\<exists>k. cleanOldBackups (resolve (cwd w) f) k w5 = (Inr (), w'))"
    by (auto split: option.splits if_splits)
  then show ?thesis
  proof
    assume "w' = w5" with e5 show ?thesis by simp
  next
    assume "\<exists>k. cleanOldBackups (resolve (cwd w) f) k w5 = (Inr (), w')"
    then obtain k where "cleanOldBackups (resolve (cwd w) f) k w5 = (Inr (), w')" by blast
    from cleanOldBackups_only_deletes[OF this] have "same_env w5 w'" by simp
    with e5 show ?thesis by (rule same_env_trans)
  qed
qed

lemma rollback_env:
  assumes "rollback b t w = (Inr target, w')"
  shows "same_env w w'"
proof -
  from rollback_Inr[OF assms] obtain c m w1 where
    cp: "if resolve (cwd w) b = resolve (cwd w) target then w1 = w
         else w1 = written (resolve (cwd w) target) c w \<and> lookup w (resolve (cwd w) target) \<noteq> Some Dir" and
    r: "recordOperation \<lparr>timestamp = iso (clock w1 (ticks w1)), originalPath = target,
                 backupPath = b, operation = ''rollback'', comment' = None\<rparr>
               (w1\<lparr>ticks := Suc (ticks w1)\<rparr>) = (Inr (), w')"
    by blast
  from cp have "w1 = w \<or> w1 = written (resolve (cwd w) target) c w" by (simp split: if_splits)
  then have "same_env w w1" by (auto simp: same_env_def written_def)
  with recordOperation_env[OF r] show ?thesis by (auto simp: same_env_def)
qed

lemma world_eqI:
  "same_env w w' \<Longrightarrow> fs w' = al \<Longrightarrow> ticks w' = n \<Longrightarrow> w' = w\<lparr>fs := al, ticks := n\<rparr>"
  by (simp add: same_env_def)

section \<open>The example run\<close>

lemma backup_notes_eval:
  "(case backupFile ''notes.txt'' \<lparr>maxBackups = None, comment = None\<rparr> example_world of
      (r, w) \<Rightarrow> (r, fs w, ticks w))
   = (Inr ''/r/.context/backups/notes.txt.2025-12-30T17-30-00.bak'', fs backed_up_world, ticks backed_up_world)"
  by code_simp

lemma backup_notes:
  "backupFile ''notes.txt'' \<lparr>maxBackups = None, comment = None\<rparr> example_world
   = (Inr ''/r/.context/backups/notes.txt.2025-12-30T17-30-00.bak'', backed_up_world)"
proof -
  obtain r w where s: "backupFile ''notes.txt'' \<lparr>maxBackups = None, comment = None\<rparr> example_world = (r, w)"
    by (cases "backupFile ''notes.txt'' \<lparr>maxBackups = None, comment = None\<rparr> example_world")
  with backup_notes_eval have r: "r = Inr ''/r/.context/backups/notes.txt.2025-12-30T17-30-00.bak''"
    and f: "fs w = fs backed_up_world" and t: "ticks w = ticks backed_up_world" by simp_all
  from s r have "same_env example_world w" using backupFile_env by blast
  from world_eqI[OF this f t] have "w = backed_up_world"
    by (simp add: backed_up_world_def)
  with s r show ?thesis by simp
qed

lemma backup_main_eval:
  "(case backupFile ''src/main.ts'' \<lparr>maxBackups = None, comment = None\<rparr> backed_up_world of
      (r, w) \<Rightarrow> (r, fs w, ticks w))
   = (Inr ''/r/.context/backups/main.ts.2025-12-30T17-30-00.bak'',
      fs twice_backed_up_world, ticks twice_backed_up_world)"
  by code_simp

lemma same_env_backed_up: "same_env example_world backed_up_world"
  by (simp add: backed_up_world_def)

lemma backup_main:
  "backupFile ''src/main.ts'' \<lparr>maxBackups = None, comment = None\<rparr> backed_up_world
   = (Inr ''/r/.context/backups/main.ts.2025-12-30T17-30-00.bak'', twice_backed_up_world)"
proof -
  obtain r w where s: "backupFile ''src/main.ts'' \<lparr>maxBackups = None, comment = None\<rparr> backed_up_world = (r, w)"
    by (cases "backupFile ''src/main.ts'' \<lparr>maxBackups = None, comment = None\<rparr> backed_up_world")
  with backup_main_eval have r: "r = Inr ''/r/.context/backups/main.ts.2025-12-30T17-30-00.bak''"
    and f: "fs w = fs twice_backed_up_world" and t: "ticks w = ticks twice_backed_up_world" by simp_all
  from s r have "same_env backed_up_world w" using backupFile_env by blast
  with same_env_backed_up have "same_env example_world w" by (rule same_env_trans)
  from world_eqI[OF this f t] have "w = twice_backed_up_world"
    by (simp add: twice_backed_up_world_def)
  with s r show ?thesis by simp
qed

lemma log_lines_eval:
  "log_lines backed_up_world = [JSON_stringify notes_record]
   \<and> log_lines twice_backed_up_world
       = [JSON_stringify notes_record, JSON_stringify notes_record, JSON_stringify main_record]"
  by code_simp

lemma rollback_notes_eval:
  "(case rollback ''/r/.context/backups/notes.txt.2025-12-30T17-30-00.bak'' None backed_up_world of
      (r, w) \<Rightarrow> (r, read_file w ''/r/notes.txt'', read_file w ''/r/2025-12-30T17-30-00'', log_lines w))
   = (Inr ''/r/2025-12-30T17-30-00'', Some ''draft'', Some ''draft'',
      [JSON_stringify notes_record, JSON_stringify notes_record, JSON_stringify rollback_record])"
  by code_simp

lemma rollback_edited_eval:
  "(case rollback ''/r/.context/backups/notes.txt.2025-12-30T17-30-00.bak'' None edited_world of
      (r, w) \<Rightarrow> (r, read_file w ''/r/notes.txt'', read_file w ''/r/2025-12-30T17-30-00''))
   = (Inr ''/r/2025-12-30T17-30-00'', Some ''final'', Some ''draft'')"
  by code_simp

section \<open>The log and its listing\<close>

lemma get_property_record_json:
  "get_property (record_json r) ''timestamp'' = Inr (Some (JString (timestamp r)))"
  "get_property (record_json r) ''originalPath'' = Inr (Some (JString (originalPath r)))"
  "get_property (record_json r) ''backupPath'' = Inr (Some (JString (backupPath r)))"
  "get_property (record_json r) ''operation'' = Inr (Some (JString (operation r)))"
  "get_property (record_json r) ''comment'' = Inr (map_option JString (comment' r))"
  by (simp_all add: get_property_def record_json_def split: option.splits)

lemma mentions_record_json:
  "mentions p (record_json r) = Inr (originalPath r = p \<or> backupPath r = p)"
  by (auto simp: mentions_def get_property_record_json)

lemma log_record_record_json: "log_record (record_json r) = (record_lines r, None)"
  by (simp add: log_record_def get_property_record_json template_throws_def truthy_def
      record_lines_def split: option.splits)

lemma log_records_record_json:
  "log_records (map record_json rs) = (concat (map record_lines rs), None)"
  by (induction rs) (simp_all add: log_record_record_json)

lemma map_E_parse_stringify:
  "map_E JSON_parse (map JSON_stringify rs) = Inr (map record_json rs)"
  by (induction rs) (simp_all add: JSON_parse_stringify)

lemma filter_E_mentions:
  "filter_E (mentions p) (map record_json rs)
   = Inr (map record_json (filter (\<lambda>r. originalPath r = p \<or> backupPath r = p) rs))"
  by (induction rs) (simp_all add: mentions_record_json)

lemma written_log_lines:
  "filter (\<lambda>l. l \<noteq> []) (split_on (CHR 0x0A) (written_log rs)) = map JSON_stringify rs"
proof -
  have "written_log rs = concat (map (\<lambda>l. l @ [CHR 0x0A]) (map JSON_stringify rs))"
    by (simp add: written_log_def comp_def)
  moreover have "list_all (\<lambda>l. CHR 0x0A \<notin> set l \<and> l \<noteq> []) (map JSON_stringify rs)"
    by (simp add: list_all_iff stringify_no_newline stringify_not_Nil)
  ultimately show ?thesis using nonempty_lines by metis
qed

lemma listBackups_missing:
  "lookup w (LOG w) = None \<Longrightarrow> listBackups a w = (Inr [], w)"
  by (simp add: listBackups_def existsSync_def LOG_def)

lemma listBackups_written:
  assumes "read_file w (LOG w) = Some (written_log rs)"
  shows "listBackups a w = (Inr (map record_json (selected a (cwd w) rs)), w)"
proof -
  from assms obtain m where l: "lookup w (resolve (cwd w) (logPath w)) = Some (File (written_log rs) m)"
    by (auto simp: read_file_Some LOG_def)
  then have e: "existsSync (logPath w) w" by (simp add: existsSync_def)
  from l have r: "readFileSync (logPath w) w = (Inr (written_log rs), w)"
    by (simp add: readFileSync_def Let_def)
  show ?thesis
    by (simp add: listBackups_def e r bindE_def written_log_lines map_E_parse_stringify
        filter_E_mentions selected_def split: option.splits)
qed

lemma list_missing:
  assumes "arg args 0 = Some ''list''" and "lookup w (LOG w) = None"
  shows "main args w = (\<lparr>exit_code = 0, stdout = [Line ''No backups found.''], failure = None\<rparr>, w)"
  using assms listBackups_missing[OF assms(2), of "arg args 1"]
  by (simp add: main_def run_command_def)

lemma list_written:
  assumes "arg args 0 = Some ''list''" and "read_file w (LOG w) = Some (written_log rs)"
  shows "main args w
         = (\<lparr>exit_code = 0,
             stdout = (if selected (arg args 1) (cwd w) rs = [] then [Line ''No backups found.'']
                       else concat (map record_lines (selected (arg args 1) (cwd w) rs))),
             failure = None\<rparr>, w)"
  using assms(1) listBackups_written[OF assms(2), of "arg args 1"]
  by (simp add: main_def run_command_def log_records_record_json)

lemma garbled_eval:
  "(case main [''list''] garbled_world of (r, w) \<Rightarrow> (exit_code r, stdout r, failure r, fs w, ticks w))
   = (1, [], Some SyntaxError, fs garbled_world, ticks garbled_world)"
  by code_simp

lemma recordOperation_log:
  assumes "recordOperation r w = (Inr u, w')"
  shows "\<exists>old. read_file w' (LOG w) = Some (old @ old @ log_line r (iso (clock w (ticks w))))"
proof -
  from recordOperation_Inr[OF assms] obtain old where
    o: "lookup w (LOG w) = None \<and> old = [] \<or> (\<exists>m. lookup w (LOG w) = Some (File old m))"
    and w': "w' = written (LOG w) (old @ old @ log_line r (iso (clock w (ticks w)))) (w\<lparr>ticks := Suc (ticks w)\<rparr>)"
    by blast
  from o have "LOG w \<noteq> ''/''" by (auto simp: lookup_def)
  from lookup_written[OF this] w' show ?thesis by (auto simp: read_file_def)
qed

lemma rollback_log:
  assumes "rollback b t w = (Inr target, w')"
  shows "\<exists>old i. read_file w' (LOG w)
           = Some (old @ old @ JSON_stringify \<lparr>timestamp = i, originalPath = target, backupPath = b,
                                  operation = ''rollback'', comment' = None\<rparr> @ [CHR 0x0A])"
proof -
  from rollback_Inr[OF assms] obtain c m w1 where
    cp: "if resolve (cwd w) b = resolve (cwd w) target then w1 = w
         else w1 = written (resolve (cwd w) target) c w \<and> lookup w (resolve (cwd w) target) \<noteq> Some Dir" and
    r: "recordOperation \<lparr>timestamp = iso (clock w1 (ticks w1)), originalPath = target,
                 backupPath = b, operation = ''rollback'', comment' = None\<rparr>
               (w1\<lparr>ticks := Suc (ticks w1)\<rparr>) = (Inr (), w')"
    by blast
  from cp have "w1 = w \<or> w1 = written (resolve (cwd w) target) c w" by (simp split: if_splits)
  then have "same_env w w1" by (auto simp: same_env_def written_def)
  then have "LOG (w1\<lparr>ticks := Suc (ticks w1)\<rparr>) = LOG w" by (simp add: LOG_same_env)
  with recordOperation_log[OF r] show ?thesis by (auto simp: log_line_def)
qed

lemma backupFile_log:
  assumes "backupFile f options w = (Inr bp, w')"
  shows "\<exists>old i. (maxBackups options = None \<longrightarrow> read_file w' (LOG w) \<noteq> None)
           \<and> read_file w' (LOG w)
               \<in> {None, Some (old @ old @ JSON_stringify \<lparr>timestamp = i, originalPath = resolve (cwd w) f,
                                    backupPath = bp, operation = ''backup'',
                                    comment' = comment options\<rparr> @ [CHR 0x0A])}"
proof -
  from backupFile_Inr[OF assms] obtain wa c m wb w5 where
    a: "same_env w wa" and
    cp: "if resolve (cwd w) (resolve (cwd w) f) = resolve (cwd w) bp then wb = wa
         else wb = written (resolve (cwd w) bp) c wa \<and> lookup wa (resolve (cwd w) bp) \<noteq> Some Dir" and
    r: "recordOperation \<lparr>timestamp = iso (clock wb (ticks wb)), originalPath = resolve (cwd w) f,
            backupPath = bp, operation = ''backup'', comment' = comment options\<rparr>
            (wb\<lparr>ticks := Suc (ticks wb)\<rparr>) = (Inr (), w5)" and
    fin: "case maxBackups options of
            Some k \<Rightarrow> if k \<noteq> 0 then cleanOldBackups (resolve (cwd w) f) k w5 = (Inr (), w') else w' = w5
          | None \<Rightarrow> w' = w5"
    by blast
  from cp have "wb = wa \<or> wb = written (resolve (cwd w) bp) c wa" by (simp split: if_splits)
  with a have "same_env w wb" by (auto simp: same_env_def written_def)
  then have "LOG (wb\<lparr>ticks := Suc (ticks wb)\<rparr>) = LOG w" by (simp add: LOG_same_env)
  with recordOperation_log[OF r] obtain old i where
    l5: "read_file w5 (LOG w)
         = Some (old @ old @ JSON_stringify \<lparr>timestamp = i, originalPath = resolve (cwd w) f,
                   backupPath = bp, operation = ''backup'', comment' = comment options\<rparr> @ [CHR 0x0A])"
    by (auto simp: log_line_def)
  from fin have "w' = w5 \<or> (maxBackups options \<noteq> None
      \<and> (\<exists>k. cleanOldBackups (resolve (cwd w) f) k w5 = (Inr (), w')))"
    by (auto split: option.splits if_splits)
  then show ?thesis
  proof
    assume "w' = w5" with l5 show ?thesis by auto
  next
    assume b: "maxBackups options \<noteq> None \<and> (\<exists>k. cleanOldBackups (resolve (cwd w) f) k w5 = (Inr (), w'))"
    then obtain k where "cleanOldBackups (resolve (cwd w) f) k w5 = (Inr (), w')" by blast
    from cleanOldBackups_only_deletes[OF this]
    have "\<forall>q. lookup w' q = lookup w5 q \<or> lookup w' q = None" by (rule conjunct2[OF conjunct2])
    then have "lookup w' (LOG w) = lookup w5 (LOG w) \<or> lookup w' (LOG w) = None" by (rule spec)
    then have "read_file w' (LOG w) = read_file w5 (LOG w) \<or> read_file w' (LOG w) = None"
      by (auto simp: read_file_def)
    with l5 b show ?thesis by auto
  qed
qed

section \<open>Backup and rollback\<close>

text \<open>
  C1. The round trip through rollback without a target fails. \<^verbatim>\<open>/r/notes.txt\<close> holds
  \<^verbatim>\<open>draft\<close> when it is backed up and is then edited to \<^verbatim>\<open>final\<close>. Rollback of
  the artifact succeeds, but it writes \<^verbatim>\<open>draft\<close> to the file
  \<^verbatim>\<open>/r/2025-12-30T17-30-00\<close>, named after the timestamp, and
  \<^verbatim>\<open>/r/notes.txt\<close> still holds \<^verbatim>\<open>final\<close>.
\<close>

theorem rollback_without_target_keeps_the_edit:
  "backupFile ''notes.txt'' \<lparr>maxBackups = None, comment = None\<rparr> example_world
     = (Inr ''/r/.context/backups/notes.txt.2025-12-30T17-30-00.bak'', backed_up_world)
   \<and> resolve (cwd example_world) ''notes.txt'' = ''/r/notes.txt''
   \<and> read_file example_world ''/r/notes.txt'' = Some ''draft''
   \<and> edited_world
       = backed_up_world
           \<lparr>fs := AList.update ''/r/notes.txt'' (File ''final'' 2000) (fs backed_up_world)\<rparr>
   \<and> fst (rollback ''/r/.context/backups/notes.txt.2025-12-30T17-30-00.bak'' None edited_world)
       = Inr ''/r/2025-12-30T17-30-00''
   \<and> read_file (snd (rollback ''/r/.context/backups/notes.txt.2025-12-30T17-30-00.bak'' None edited_world))
         ''/r/notes.txt'' = Some ''final''
   \<and> read_file (snd (rollback ''/r/.context/backups/notes.txt.2025-12-30T17-30-00.bak'' None edited_world))
         ''/r/2025-12-30T17-30-00'' = Some ''draft''"
proof -
  have "resolve (cwd example_world) ''notes.txt'' = ''/r/notes.txt''" by code_simp
  moreover have "read_file example_world ''/r/notes.txt'' = Some ''draft''" by code_simp
  ultimately show ?thesis
    using backup_notes rollback_edited_eval by (simp add: edited_world_def split: prod.splits)
qed

text \<open>
  X1. With the file as the explicit target the round trip holds. Let the kernel find the
  regular file \<open>q\<close> with content \<open>C\<close> at the path \<open>f\<close>, and let \<open>q\<close> not be the
  operation log, in a world whose working directory and script directory are absolute and
  whose clock gives ISO timestamps. When backupFile of \<open>f\<close> without a retention count
  succeeds with the artifact path \<open>bp\<close>, and the file is then given any content
  \<open>C'\<close>, rollback of \<open>bp\<close> with the target \<open>f\<close> succeeds, returns \<open>f\<close>, and
  leaves the file with content \<open>C\<close> exactly; the artifact still holds \<open>C\<close>.
\<close>

theorem backup_rollback_round_trip:
  assumes "is_absolute (cwd w)" and "is_absolute (scriptDir w)"
    and "iso_shaped (iso (clock w (ticks w)))"
    and "namei f w = Inr q" and "read_file w q = Some C" and "q \<noteq> LOG w"
    and "backupFile f \<lparr>maxBackups = None, comment = None\<rparr> w = (Inr bp, w1)"
    and "w2 = w1\<lparr>fs := AList.update q (File C' m') (fs w1)\<rparr>"
  shows "fst (rollback bp (Some f) w2) = Inr f
    \<and> read_file (snd (rollback bp (Some f) w2)) q = Some C
    \<and> read_file (snd (rollback bp (Some f) w2)) bp = Some C"
proof -
  let ?rf = "resolve (cwd w) f"
  have q: "q = ?rf" using assms(4) by (rule namei_resolve)
  have ne: "f \<noteq> []" using assms(4) by (auto simp: namei_def)
  from assms(5) obtain m where src0: "lookup w ?rf = Some (File C m)"
    by (auto simp: read_file_Some q)
  have notlog: "?rf \<noteq> LOG w" using assms(6) q by simp
  have opts: "maxBackups \<lparr>maxBackups = None, comment = None\<rparr> = None" by simp
  from backupFile_leaves[OF assms(1-3) src0 notlog opts assms(7)] obtain t l tm where
    env1: "same_env w w1" and rbp: "resolve (cwd w) bp = bp" and bp_rf: "bp \<noteq> ?rf"
    and bp_log: "bp \<noteq> LOG w" and log_root: "LOG w \<noteq> ''/''"
    and src1: "lookup w1 ?rf = Some (File C m)"
    and art: "lookup w1 bp = Some (File C t)" and log: "lookup w1 (LOG w) = Some (File l tm)"
    and dirs1: "\<forall>d. lookup w d = Some Dir \<longrightarrow> lookup w1 d = Some Dir"
    and nb1: "namei bp w1 = Inr bp"
    by blast
  have rf_root: "?rf \<noteq> ''/''" using src0 lookup_not_root[of w ?rf] by simp
  have lk2: "lookup w2 d = (if d = ?rf then Some (File C' m') else lookup w1 d)" for d
    unfolding assms(8) q using rf_root by (rule lookup_fs_update)
  have env2: "same_env w w2" unfolding assms(8) using env1 by simp
  have art2: "lookup w2 bp = Some (File C t)" using lk2[of bp] bp_rf art by simp
  have tgt2: "lookup w2 ?rf = Some (File C' m')" using lk2[of ?rf] by simp
  have log2: "lookup w2 (LOG w) = Some (File l tm)" using lk2[of "LOG w"] notlog log by auto
  have dirs2: "lookup w2 d = Some Dir" if "lookup w1 d = Some Dir" for d
    using that lk2[of d] src1 by auto
  have cw1: "cwd w1 = cwd w" and cw2: "cwd w2 = cwd w" using env1 env2 by (simp_all add: same_env_def)
  have cw12: "cwd w2 = cwd w1" using cw1 cw2 by simp
  have nb: "namei bp w2 = Inr bp"
    using dirs2 cw12 nb1 by (rule namei_mono)
  have nf: "namei f w2 = Inr ?rf"
  proof (rule namei_mono[of w w2])
    show "lookup w2 d = Some Dir" if "lookup w d = Some Dir" for d using that dirs1 dirs2 by blast
    show "cwd w2 = cwd w" by (rule cw2)
    show "namei f w = Inr ?rf" using assms(4) q by simp
  qed
  from rollback_to_target[OF env2 art2 rbp tgt2 ne bp_rf notlog log_root log2 nb nf] bp_log
  obtain w3 where "rollback bp (Some f) w2 = (Inr f, w3)"
    "lookup w3 ?rf = Some (File C (millis (clock w2 (ticks w2))))" "lookup w3 bp = Some (File C t)"
    by blast
  then show ?thesis by (simp add: read_file_def q)
qed

theorem backup_rollback_round_trip_witness:
  "is_absolute (cwd example_world) \<and> is_absolute (scriptDir example_world)
   \<and> iso_shaped (iso (clock example_world (ticks example_world)))
   \<and> namei ''notes.txt'' example_world = Inr ''/r/notes.txt''
   \<and> read_file example_world ''/r/notes.txt'' = Some ''draft''
   \<and> backupFile ''notes.txt'' \<lparr>maxBackups = None, comment = None\<rparr> example_world
       = (Inr ''/r/.context/backups/notes.txt.2025-12-30T17-30-00.bak'', backed_up_world)
   \<and> fst (rollback ''/r/.context/backups/notes.txt.2025-12-30T17-30-00.bak'' (Some ''notes.txt'') edited_world)
       = Inr ''notes.txt''
   \<and> read_file (snd (rollback ''/r/.context/backups/notes.txt.2025-12-30T17-30-00.bak'' (Some ''notes.txt'')
         edited_world)) ''/r/notes.txt'' = Some ''draft''"
proof -
  have n: "namei ''notes.txt'' example_world = Inr ''/r/notes.txt''" by code_simp
  have a: "is_absolute (cwd example_world)" "is_absolute (scriptDir example_world)"
    "iso_shaped (iso (clock example_world (ticks example_world)))" by code_simp+
  have c: "read_file example_world ''/r/notes.txt'' = Some ''draft''" by code_simp
  have l: "''/r/notes.txt'' \<noteq> LOG example_world" by code_simp
  from backup_rollback_round_trip[OF a n c l backup_notes edited_world_def]
  show ?thesis using a n c backup_notes by simp
qed

text \<open>
  C2. The artifact of \<^verbatim>\<open>/r/notes.txt\<close> is
  \<^verbatim>\<open>/r/.context/backups/notes.txt.2025-12-30T17-30-00.bak\<close>. The first of the three
  replacements of rollback puts the timestamp in the place of everything from
  \<^verbatim>\<open>.context/backups/\<close> on, so the destination derived from the artifact is
  \<^verbatim>\<open>/r/2025-12-30T17-30-00\<close>, not the path that was backed up, and rollback
  without a target writes the content there.
\<close>

theorem rollback_target_is_timestamp:
  "backupFile ''notes.txt'' \<lparr>maxBackups = None, comment = None\<rparr> example_world
     = (Inr ''/r/.context/backups/notes.txt.2025-12-30T17-30-00.bak'', backed_up_world)
   \<and> resolve (cwd example_world) ''notes.txt'' = ''/r/notes.txt''
   \<and> derivedTarget (cwd backed_up_world) ''/r/.context/backups/notes.txt.2025-12-30T17-30-00.bak''
       = ''/r/2025-12-30T17-30-00''
   \<and> fst (rollback ''/r/.context/backups/notes.txt.2025-12-30T17-30-00.bak'' None backed_up_world)
       = Inr ''/r/2025-12-30T17-30-00''
   \<and> read_file (snd (rollback ''/r/.context/backups/notes.txt.2025-12-30T17-30-00.bak'' None backed_up_world))
         ''/r/2025-12-30T17-30-00'' = Some ''draft''"
proof -
  have "resolve (cwd example_world) ''notes.txt'' = ''/r/notes.txt''" by code_simp
  moreover have "derivedTarget (cwd backed_up_world) ''/r/.context/backups/notes.txt.2025-12-30T17-30-00.bak''
       = ''/r/2025-12-30T17-30-00''" by code_simp
  ultimately show ?thesis
    using backup_notes rollback_notes_eval by (simp split: prod.splits)
qed

text \<open>
  C3. recordOperation reads the log and appends what it read followed by the new line. The
  first backup of the example world leaves a log of one line; the second backup, of another
  file, leaves three lines: the first record twice, then the new record.
\<close>

theorem second_backup_repeats_the_log:
  "backupFile ''notes.txt'' \<lparr>maxBackups = None, comment = None\<rparr> example_world
     = (Inr ''/r/.context/backups/notes.txt.2025-12-30T17-30-00.bak'', backed_up_world)
   \<and> backupFile ''src/main.ts'' \<lparr>maxBackups = None, comment = None\<rparr> backed_up_world
     = (Inr ''/r/.context/backups/main.ts.2025-12-30T17-30-00.bak'', twice_backed_up_world)
   \<and> log_lines backed_up_world = [JSON_stringify notes_record]
   \<and> log_lines twice_backed_up_world
       = [JSON_stringify notes_record, JSON_stringify notes_record, JSON_stringify main_record]"
  using backup_notes backup_main log_lines_eval by simp

text \<open>
  C4, as amended. The operation tag of a record is \<^verbatim>\<open>backup\<close> or
  \<^verbatim>\<open>rollback\<close>. When backupFile succeeds, the log ends with the line of a record of
  the resolved path and the artifact that is tagged \<^verbatim>\<open>backup\<close>, unless the pruning
  that follows has removed the log, which cannot happen without a retention count. When
  rollback succeeds, the log ends with the line of a record of the destination and the
  artifact that is tagged \<^verbatim>\<open>rollback\<close>.
\<close>

theorem operation_tags:
  "(backupFile f options w = (Inr bp, w') \<longrightarrow>
      (\<exists>old i. (maxBackups options = None \<longrightarrow> read_file w' (LOG w) \<noteq> None)
         \<and> read_file w' (LOG w)
             \<in> {None, Some (old @ old @ JSON_stringify \<lparr>timestamp = i, originalPath = resolve (cwd w) f,
                                  backupPath = bp, operation = ''backup'',
                                  comment' = comment options\<rparr> @ [CHR 0x0A])}))
   \<and> (rollback b t v = (Inr target, v') \<longrightarrow>
      (\<exists>old i. read_file v' (LOG v)
         = Some (old @ old @ JSON_stringify \<lparr>timestamp = i, originalPath = target, backupPath = b,
                                operation = ''rollback'', comment' = None\<rparr> @ [CHR 0x0A])))"
  using backupFile_log[of f options w bp w'] rollback_log[of b t v target v'] by blast

theorem operation_tags_witness:
  "backupFile ''notes.txt'' \<lparr>maxBackups = None, comment = None\<rparr> example_world
     = (Inr ''/r/.context/backups/notes.txt.2025-12-30T17-30-00.bak'', backed_up_world)
   \<and> (\<exists>old i. read_file backed_up_world (LOG example_world)
         = Some (old @ old @ JSON_stringify \<lparr>timestamp = i, originalPath = ''/r/notes.txt'',
                   backupPath = ''/r/.context/backups/notes.txt.2025-12-30T17-30-00.bak'',
                   operation = ''backup'', comment' = None\<rparr> @ [CHR 0x0A]))
   \<and> fst (rollback ''/r/.context/backups/notes.txt.2025-12-30T17-30-00.bak'' None backed_up_world)
       = Inr ''/r/2025-12-30T17-30-00''
   \<and> (\<exists>old i. read_file (snd (rollback ''/r/.context/backups/notes.txt.2025-12-30T17-30-00.bak'' None
                                  backed_up_world)) (LOG backed_up_world)
         = Some (old @ old @ JSON_stringify \<lparr>timestamp = i, originalPath = ''/r/2025-12-30T17-30-00'',
                   backupPath = ''/r/.context/backups/notes.txt.2025-12-30T17-30-00.bak'',
                   operation = ''rollback'', comment' = None\<rparr> @ [CHR 0x0A]))"
proof -
  have r: "resolve (cwd example_world) ''notes.txt'' = ''/r/notes.txt''" by code_simp
  have f: "fst (rollback ''/r/.context/backups/notes.txt.2025-12-30T17-30-00.bak'' None backed_up_world)
       = Inr ''/r/2025-12-30T17-30-00''"
    using rollback_notes_eval by (simp split: prod.splits)
  then have rb: "rollback ''/r/.context/backups/notes.txt.2025-12-30T17-30-00.bak'' None backed_up_world
      = (Inr ''/r/2025-12-30T17-30-00'',
         snd (rollback ''/r/.context/backups/notes.txt.2025-12-30T17-30-00.bak'' None backed_up_world))"
    by (metis prod.collapse)
  from operation_tags[of "''notes.txt''" "\<lparr>maxBackups = None, comment = None\<rparr>" example_world
      "''/r/.context/backups/notes.txt.2025-12-30T17-30-00.bak''" backed_up_world
      "''/r/.context/backups/notes.txt.2025-12-30T17-30-00.bak''" None backed_up_world
      "''/r/2025-12-30T17-30-00''"
      "snd (rollback ''/r/.context/backups/notes.txt.2025-12-30T17-30-00.bak'' None backed_up_world)"]
    backup_notes rb r f
  show ?thesis by (simp only: simp_thms BackupOptions.simps) auto
qed

text \<open>
  The record of a rollback is not tagged \<^verbatim>\<open>restore\<close>: after the rollback of the
  artifact of \<^verbatim>\<open>notes.txt\<close> the last line of the log is a record whose operation is
  \<^verbatim>\<open>rollback\<close>.
\<close>

theorem rollback_tag_counterexample:
  "fst (rollback ''/r/.context/backups/notes.txt.2025-12-30T17-30-00.bak'' None backed_up_world)
     = Inr ''/r/2025-12-30T17-30-00''
   \<and> log_lines backed_up_world = [JSON_stringify notes_record]
   \<and> log_lines (snd (rollback ''/r/.context/backups/notes.txt.2025-12-30T17-30-00.bak'' None backed_up_world))
       = [JSON_stringify notes_record, JSON_stringify notes_record, JSON_stringify rollback_record]
   \<and> JSON_parse (JSON_stringify rollback_record) = Inr (record_json rollback_record)
   \<and> get_property (record_json rollback_record) ''operation'' = Inr (Some (JString ''rollback''))
   \<and> ''rollback'' \<noteq> ''restore''"
  using rollback_notes_eval log_lines_eval
  by (simp add: JSON_parse_stringify get_property_record_json rollback_record_def split: prod.splits)

text \<open>
  C8. Without a log file listBackups returns the empty list and changes nothing. With a
  log that holds the lines of the records \<open>rs\<close>, one after the other as recordOperation
  writes them, it returns these records in the order of their lines: all of them without an
  argument, and with one those that name the resolved path as their original or as their
  artifact, still in the order of the log.
\<close>

theorem listBackups_append_order:
  "(lookup w (LOG w) = None \<longrightarrow> listBackups a w = (Inr [], w))
   \<and> (read_file w (LOG w) = Some (written_log rs) \<longrightarrow>
        listBackups a w = (Inr (map record_json (selected a (cwd w) rs)), w)
        \<and> listBackups None w = (Inr (map record_json rs), w))"
  using listBackups_missing[of w a] listBackups_written[of w rs a] listBackups_written[of w rs None]
  by (simp add: selected_def)

theorem listBackups_append_order_witness:
  "lookup example_world (LOG example_world) = None
   \<and> listBackups (Some ''notes.txt'') example_world = (Inr [], example_world)
   \<and> read_file twice_backed_up_world (LOG twice_backed_up_world)
       = Some (written_log [notes_record, notes_record, main_record])
   \<and> listBackups (Some ''src/main.ts'') twice_backed_up_world
       = (Inr [record_json main_record], twice_backed_up_world)
   \<and> listBackups None twice_backed_up_world
       = (Inr [record_json notes_record, record_json notes_record, record_json main_record],
          twice_backed_up_world)"
proof -
  have m: "lookup example_world (LOG example_world) = None" by code_simp
  have l: "read_file twice_backed_up_world (LOG twice_backed_up_world)
       = Some (written_log [notes_record, notes_record, main_record])" by code_simp
  have s: "selected (Some ''src/main.ts'') (cwd twice_backed_up_world) [notes_record, notes_record, main_record]
       = [main_record]" by code_simp
  from listBackups_append_order[of example_world "Some ''notes.txt''" "[]"] m
    listBackups_append_order[of twice_backed_up_world "Some ''src/main.ts''"
      "[notes_record, notes_record, main_record]"] l s
  show ?thesis by simp
qed

text \<open>
  C9, as amended. The \<^verbatim>\<open>list\<close> command exits with code 0 and changes nothing
  when the log is missing, and when the log holds lines of records only, the empty log
  included. It prints \<^verbatim>\<open>No backups found.\<close> when the log is missing or no record is
  selected, and the lines of the selected records otherwise.
\<close>

theorem list_exit_code:
  assumes "arg args 0 = Some ''list''"
  shows "(lookup w (LOG w) = None \<longrightarrow>
            main args w = (\<lparr>exit_code = 0, stdout = [Line ''No backups found.''], failure = None\<rparr>, w))
    \<and> (read_file w (LOG w) = Some (written_log rs) \<longrightarrow>
            main args w
            = (\<lparr>exit_code = 0,
                stdout = (if selected (arg args 1) (cwd w) rs = [] then [Line ''No backups found.'']
                          else concat (map record_lines (selected (arg args 1) (cwd w) rs))),
                failure = None\<rparr>, w))"
  using list_missing[OF assms] list_written[OF assms] by blast

theorem list_exit_code_witness:
  "arg [''list''] 0 = Some ''list'' \<and> arg [''list'', ''src/main.ts''] 0 = Some ''list''
   \<and> lookup example_world (LOG example_world) = None
   \<and> main [''list''] example_world
       = (\<lparr>exit_code = 0, stdout = [Line ''No backups found.''], failure = None\<rparr>, example_world)
   \<and> read_file twice_backed_up_world (LOG twice_backed_up_world)
       = Some (written_log [notes_record, notes_record, main_record])
   \<and> main [''list'', ''src/main.ts''] twice_backed_up_world
       = (\<lparr>exit_code = 0,
           stdout = [Record_line (Some (JString ''2025-12-30T17:30:00.123Z'')) (Some (JString ''backup''))
                       (Some (JString ''/r/.context/backups/main.ts.2025-12-30T17-30-00.bak''))],
           failure = None\<rparr>, twice_backed_up_world)"
proof -
  have a: "arg [''list''] 0 = Some ''list''" "arg [''list'', ''src/main.ts''] 0 = Some ''list''"
    "arg [''list'', ''src/main.ts''] 1 = Some ''src/main.ts''"
    by (simp_all add: arg_def)
  have m: "lookup example_world (LOG example_world) = None" by code_simp
  have l: "read_file twice_backed_up_world (LOG twice_backed_up_world)
       = Some (written_log [notes_record, notes_record, main_record])" by code_simp
  have s: "selected (Some ''src/main.ts'') (cwd twice_backed_up_world) [notes_record, notes_record, main_record]
       = [main_record]" by code_simp
  have p: "record_lines main_record
       = [Record_line (Some (JString ''2025-12-30T17:30:00.123Z'')) (Some (JString ''backup''))
            (Some (JString ''/r/.context/backups/main.ts.2025-12-30T17-30-00.bak''))]"
    by (simp add: record_lines_def main_record_def)
  from list_exit_code[OF a(1), of example_world "[]"] m
    list_exit_code[OF a(2), of twice_backed_up_world "[notes_record, notes_record, main_record]"] l s p a
  show ?thesis by simp
qed

text \<open>
  A log with a line that is not JSON makes \<^verbatim>\<open>list\<close> exit with code 1:
  \<^verbatim>\<open>JSON.parse\<close> throws a SyntaxError, which \<^verbatim>\<open>main\<close> catches.
\<close>

theorem list_garbled_log_counterexample:
  "read_file garbled_world (LOG garbled_world) = Some (''not a record'' @ [CHR 0x0A])
   \<and> exit_code (fst (main [''list''] garbled_world)) = 1
   \<and> failure (fst (main [''list''] garbled_world)) = Some SyntaxError
   \<and> stdout (fst (main [''list''] garbled_world)) = []"
proof -
  have "read_file garbled_world (LOG garbled_world) = Some (''not a record'' @ [CHR 0x0A])" by code_simp
  then show ?thesis using garbled_eval by (simp split: prod.splits)
qed

end
